theory Spec2Isabelle
  imports Main "HOL-Library.Multiset" "HOL-Library.Char_ord" "HOL-Library.List_Lexorder"
begin

section \<open>Values offered as streams\<close>

text \<open>
  The operators of \<^verbatim>\<open>pstream/_async/functors.py\<close> inspect their source with
  \<^verbatim>\<open>isinstance\<close> against the abstract classes of \<^verbatim>\<open>collections.abc\<close>. Those
  classes recognise an object by the methods it has, so a Python value is modelled by the
  four methods the checks look at, by \<^verbatim>\<open>__getitem__\<close> (which \<^verbatim>\<open>iter\<close> falls back on
  when there is no \<^verbatim>\<open>__iter__\<close>), and by the finite sequence of elements it delivers:
  for a cursor (an object with \<^verbatim>\<open>__next__\<close> or \<^verbatim>\<open>__anext__\<close>) the elements still
  to come, for a container (a list, say) its contents.
\<close>

record 'a pyobj =
  has_anext :: bool
  has_aiter :: bool
  has_next :: bool
  has_iter :: bool
  has_getitem :: bool
  items :: "'a list"

datatype error = TypeError | ValueError | ZeroDivisionError | StopIteration | StopAsyncIteration

definition is_AsyncIterator :: "'a pyobj \<Rightarrow> bool" where
  "is_AsyncIterator v = (has_anext v \<and> has_aiter v)"

definition is_AsyncIterable :: "'a pyobj \<Rightarrow> bool" where
  "is_AsyncIterable v = has_aiter v"

definition is_Iterator :: "'a pyobj \<Rightarrow> bool" where
  "is_Iterator v = (has_next v \<and> has_iter v)"

definition is_Iterable :: "'a pyobj \<Rightarrow> bool" where
  "is_Iterable v = has_iter v"

text \<open>The objects used as concrete inputs: a list, a list iterator, an object with only
  \<^verbatim>\<open>__aiter__\<close>, an async generator, and a value that is no stream at all (an integer).\<close>

definition py_list :: "'a list \<Rightarrow> 'a pyobj" where
  "py_list xs =
     \<lparr>has_anext = False, has_aiter = False, has_next = False, has_iter = True, has_getitem = True,
      items = xs\<rparr>"

definition sync_iterator :: "'a list \<Rightarrow> 'a pyobj" where
  "sync_iterator xs =
     \<lparr>has_anext = False, has_aiter = False, has_next = True, has_iter = True, has_getitem = False,
      items = xs\<rparr>"

definition async_iterable :: "'a list \<Rightarrow> 'a pyobj" where
  "async_iterable xs =
     \<lparr>has_anext = False, has_aiter = True, has_next = False, has_iter = False, has_getitem = False,
      items = xs\<rparr>"

definition async_iterator :: "'a list \<Rightarrow> 'a pyobj" where
  "async_iterator xs =
     \<lparr>has_anext = True, has_aiter = True, has_next = False, has_iter = False, has_getitem = False,
      items = xs\<rparr>"

definition not_a_stream :: "'a pyobj" where
  "not_a_stream =
     \<lparr>has_anext = False, has_aiter = False, has_next = False, has_iter = False, has_getitem = False,
      items = []\<rparr>"

text \<open>\<^verbatim>\<open>stream.__aiter__()\<close> and \<^verbatim>\<open>stream.__iter__()\<close>: a cursor returns itself (the
  iterator protocol), any other iterable hands out a new cursor at its first element.\<close>

definition dunder_aiter :: "'a pyobj \<Rightarrow> 'a pyobj" where
  "dunder_aiter v = (if has_anext v then v else async_iterator (items v))"

definition dunder_iter :: "'a pyobj \<Rightarrow> 'a pyobj" where
  "dunder_iter v = (if has_next v then v else sync_iterator (items v))"

text \<open>\<^verbatim>\<open>next(stream)\<close> and \<^verbatim>\<open>await stream.__anext__()\<close>: the element and the advanced
  cursor, the exhaustion signal, or \<^verbatim>\<open>TypeError\<close> on an object that is no cursor.\<close>

definition py_next :: "'a pyobj \<Rightarrow> error + ('a \<times> 'a pyobj)" where
  "py_next v =
     (if \<not> has_next v then Inl TypeError
      else case items v of [] \<Rightarrow> Inl StopIteration | x # xs \<Rightarrow> Inr (x, v\<lparr>items := xs\<rparr>))"

definition py_anext :: "'a pyobj \<Rightarrow> error + ('a \<times> 'a pyobj)" where
  "py_anext v =
     (if \<not> has_anext v then Inl TypeError
      else case items v of [] \<Rightarrow> Inl StopAsyncIteration | x # xs \<Rightarrow> Inr (x, v\<lparr>items := xs\<rparr>))"

text \<open>
  \<^verbatim>\<open>for x in stream\<close> calls \<^verbatim>\<open>iter(stream)\<close>, which uses \<^verbatim>\<open>__iter__\<close> and, when
  there is none, reads \<^verbatim>\<open>stream[0]\<close>, \<^verbatim>\<open>stream[1]\<close>, \<open>\<dots>\<close> through \<^verbatim>\<open>__getitem__\<close>;
  \<^verbatim>\<open>async for x in stream\<close> calls \<^verbatim>\<open>stream.__aiter__()\<close>. Both raise \<^verbatim>\<open>TypeError\<close>
  when the object has no such method. \<open>for_iter\<close> gives the elements the loop will see.
  When the loop has stopped with \<open>rest\<close> still unread, \<open>after_for\<close> is the source object
  afterwards: a cursor has moved, a container is as it was (the loop read a cursor of its
  own).
\<close>

definition for_iter :: "'a pyobj \<Rightarrow> error + 'a list" where
  "for_iter v =
     (if has_iter v then Inr (items (dunder_iter v))
      else if has_getitem v then Inr (items v)
      else Inl TypeError)"

definition async_for_iter :: "'a pyobj \<Rightarrow> error + 'a list" where
  "async_for_iter v = (if has_aiter v then Inr (items (dunder_aiter v)) else Inl TypeError)"

definition after_for :: "'a pyobj \<Rightarrow> 'a list \<Rightarrow> 'a pyobj" where
  "after_for v rest = (if has_iter v \<and> has_next v then v\<lparr>items := rest\<rparr> else v)"

definition after_async_for :: "'a pyobj \<Rightarrow> 'a list \<Rightarrow> 'a pyobj" where
  "after_async_for v rest = (if has_anext v then v\<lparr>items := rest\<rparr> else v)"

section \<open>User functions\<close>

text \<open>A user function is a plain callable or a coroutine function;
  \<^verbatim>\<open>iscoroutinefunction\<close> tells them apart before any call. \<open>call f x\<close> is the value of
  \<^verbatim>\<open>f(x)\<close> for a plain function and of \<^verbatim>\<open>await f(x)\<close> for a coroutine function.\<close>

datatype ('a, 'b) fn = Sync "'a \<Rightarrow> 'b" | Coroutine "'a \<Rightarrow> 'b"

fun iscoroutinefunction :: "('a, 'b) fn \<Rightarrow> bool" where
  "iscoroutinefunction (Sync g) = False"
| "iscoroutinefunction (Coroutine g) = True"

fun call :: "('a, 'b) fn \<Rightarrow> 'a \<Rightarrow> 'b" where
  "call (Sync g) x = g x"
| "call (Coroutine g) x = g x"

section \<open>Observable behaviour of an operator\<close>

text \<open>
  An operator invocation followed by the consumption of its result is described by the
  sequence of events it performs, in execution order. \<open>Return\<close> marks the moment the
  call hands its iterator (generator) object back: what precedes it happens at invocation,
  what follows it happens only as the consumer demands elements, and a generator body runs
  from one \<open>Yield\<close> to the next per demand. \<open>Raise\<close> ends the run.
\<close>

datatype ('a, 'b) event = Return | Pull 'a | Call 'a | Yield 'b | Raise error

fun yields :: "('a, 'b) event list \<Rightarrow> 'b list" where
  "yields [] = []"
| "yields (Yield y # es) = y # yields es"
| "yields (e # es) = yields es"

fun pulls :: "('a, 'b) event list \<Rightarrow> 'a list" where
  "pulls [] = []"
| "pulls (Pull x # es) = x # pulls es"
| "pulls (e # es) = pulls es"

fun calls :: "('a, 'b) event list \<Rightarrow> 'a list" where
  "calls [] = []"
| "calls (Call x # es) = x # calls es"
| "calls (e # es) = calls es"

fun raised :: "('a, 'b) event list \<Rightarrow> error option" where
  "raised [] = None"
| "raised (Raise e # es) = Some e"
| "raised (e # es) = raised es"

section \<open>UTILS: classification, coercion and the two dispatchers\<close>

definition is_async_stream :: "'a pyobj \<Rightarrow> bool" where
  "is_async_stream stream = (is_AsyncIterator stream \<or> is_AsyncIterable stream)"

definition coerce :: "'a pyobj \<Rightarrow> error + 'a pyobj" where
  "coerce stream =
     (if is_AsyncIterator stream then Inr stream
      else if is_AsyncIterable stream then Inr (dunder_aiter stream)
      else if is_Iterator stream then Inr stream
      else if is_Iterable stream then Inr (dunder_iter stream)
      else Inl TypeError)"

definition factory ::
  "('a pyobj \<Rightarrow> 'x \<Rightarrow> ('a, 'b) event list) \<Rightarrow> ('a pyobj \<Rightarrow> 'x \<Rightarrow> ('a, 'b) event list) \<Rightarrow>
   'a pyobj \<Rightarrow> 'x \<Rightarrow> ('a, 'b) event list" where
  "factory s a stream args =
     (case coerce stream of
        Inl e \<Rightarrow> [Raise e]
      | Inr stream' \<Rightarrow> if is_async_stream stream' then a stream' args else s stream' args)"

definition higher_order_factory ::
  "(('a, 'k) fn \<Rightarrow> 'a pyobj \<Rightarrow> ('a, 'b) event list) \<Rightarrow> (('a, 'k) fn \<Rightarrow> 'a pyobj \<Rightarrow> ('a, 'b) event list) \<Rightarrow>
   (('a, 'k) fn \<Rightarrow> 'a pyobj \<Rightarrow> ('a, 'b) event list) \<Rightarrow> (('a, 'k) fn \<Rightarrow> 'a pyobj \<Rightarrow> ('a, 'b) event list) \<Rightarrow>
   ('a, 'k) fn \<Rightarrow> 'a pyobj \<Rightarrow> ('a, 'b) event list" where
  "higher_order_factory ss sa as aa f stream =
     (let f_is_async = iscoroutinefunction f;
          stream_is_async = is_async_stream stream
      in if \<not> f_is_async \<and> \<not> stream_is_async then ss f stream
         else if \<not> f_is_async \<and> stream_is_async then sa f stream
         else if f_is_async \<and> \<not> stream_is_async then as f stream
         else if f_is_async \<and> stream_is_async then aa f stream
         else [Raise TypeError])"


section \<open>MAP and INSPECT\<close>

text \<open>The loop bodies. The four variants of an operator run the same body; they differ in
  how the source is opened (\<^verbatim>\<open>for\<close> or \<^verbatim>\<open>async for\<close>), in whether the function is
  called or awaited, and in whether the object is built by a builtin (which opens the source
  at once) or is a generator (whose body starts at the first demand).\<close>

fun map_loop :: "('a, 'b) fn \<Rightarrow> 'a list \<Rightarrow> ('a, 'b) event list" where
  "map_loop f [] = []"
| "map_loop f (x # xs) = Pull x # Call x # Yield (call f x) # map_loop f xs"

definition ss_map :: "('a, 'b) fn \<Rightarrow> 'a pyobj \<Rightarrow> ('a, 'b) event list" where
  "ss_map f stream =
     (case for_iter stream of Inl e \<Rightarrow> [Raise e] | Inr xs \<Rightarrow> Return # map_loop f xs)"

definition sa_map :: "('a, 'b) fn \<Rightarrow> 'a pyobj \<Rightarrow> ('a, 'b) event list" where
  "sa_map f stream =
     Return # (case async_for_iter stream of Inl e \<Rightarrow> [Raise e] | Inr xs \<Rightarrow> map_loop f xs)"

definition as_map :: "('a, 'b) fn \<Rightarrow> 'a pyobj \<Rightarrow> ('a, 'b) event list" where
  "as_map f stream =
     Return # (case for_iter stream of Inl e \<Rightarrow> [Raise e] | Inr xs \<Rightarrow> map_loop f xs)"

definition aa_map :: "('a, 'b) fn \<Rightarrow> 'a pyobj \<Rightarrow> ('a, 'b) event list" where
  "aa_map f stream =
     Return # (case async_for_iter stream of Inl e \<Rightarrow> [Raise e] | Inr xs \<Rightarrow> map_loop f xs)"

fun inspect_loop :: "('a, 'b) fn \<Rightarrow> 'a list \<Rightarrow> ('a, 'a) event list" where
  "inspect_loop f [] = []"
| "inspect_loop f (x # xs) = Pull x # Call x # Yield x # inspect_loop f xs"

definition ss_inspect :: "('a, 'b) fn \<Rightarrow> 'a pyobj \<Rightarrow> ('a, 'a) event list" where
  "ss_inspect f stream =
     Return # (case for_iter stream of Inl e \<Rightarrow> [Raise e] | Inr xs \<Rightarrow> inspect_loop f xs)"

definition sa_inspect :: "('a, 'b) fn \<Rightarrow> 'a pyobj \<Rightarrow> ('a, 'a) event list" where
  "sa_inspect f stream =
     Return # (case async_for_iter stream of Inl e \<Rightarrow> [Raise e] | Inr xs \<Rightarrow> inspect_loop f xs)"

definition as_inspect :: "('a, 'b) fn \<Rightarrow> 'a pyobj \<Rightarrow> ('a, 'a) event list" where
  "as_inspect f stream =
     Return # (case for_iter stream of Inl e \<Rightarrow> [Raise e] | Inr xs \<Rightarrow> inspect_loop f xs)"

definition aa_inspect :: "('a, 'b) fn \<Rightarrow> 'a pyobj \<Rightarrow> ('a, 'a) event list" where
  "aa_inspect f stream =
     Return # (case async_for_iter stream of Inl e \<Rightarrow> [Raise e] | Inr xs \<Rightarrow> inspect_loop f xs)"

section \<open>FILTER and FILTER_FALSE\<close>

fun filter_loop :: "('a, bool) fn \<Rightarrow> 'a list \<Rightarrow> ('a, 'a) event list" where
  "filter_loop f [] = []"
| "filter_loop f (x # xs) =
     Pull x # Call x # (if call f x then Yield x # filter_loop f xs else filter_loop f xs)"

definition ss_filter :: "('a, bool) fn \<Rightarrow> 'a pyobj \<Rightarrow> ('a, 'a) event list" where
  "ss_filter f stream =
     (case for_iter stream of Inl e \<Rightarrow> [Raise e] | Inr xs \<Rightarrow> Return # filter_loop f xs)"

definition sa_filter :: "('a, bool) fn \<Rightarrow> 'a pyobj \<Rightarrow> ('a, 'a) event list" where
  "sa_filter f stream =
     Return # (case async_for_iter stream of Inl e \<Rightarrow> [Raise e] | Inr xs \<Rightarrow> filter_loop f xs)"

definition as_filter :: "('a, bool) fn \<Rightarrow> 'a pyobj \<Rightarrow> ('a, 'a) event list" where
  "as_filter f stream =
     Return # (case for_iter stream of Inl e \<Rightarrow> [Raise e] | Inr xs \<Rightarrow> filter_loop f xs)"

definition aa_filter :: "('a, bool) fn \<Rightarrow> 'a pyobj \<Rightarrow> ('a, 'a) event list" where
  "aa_filter f stream =
     Return # (case async_for_iter stream of Inl e \<Rightarrow> [Raise e] | Inr xs \<Rightarrow> filter_loop f xs)"

text \<open>\<^verbatim>\<open>ss_filter_false\<close> is a plain function that returns
  \<^verbatim>\<open>ss_filter(lambda x: not f(x), stream)\<close>; the generators test \<^verbatim>\<open>not f(x)\<close>
  themselves.\<close>

fun filter_false_loop :: "('a, bool) fn \<Rightarrow> 'a list \<Rightarrow> ('a, 'a) event list" where
  "filter_false_loop f [] = []"
| "filter_false_loop f (x # xs) =
     Pull x # Call x #
     (if \<not> call f x then Yield x # filter_false_loop f xs else filter_false_loop f xs)"

definition ss_filter_false :: "('a, bool) fn \<Rightarrow> 'a pyobj \<Rightarrow> ('a, 'a) event list" where
  "ss_filter_false f stream = ss_filter (Sync (\<lambda>x. \<not> call f x)) stream"

definition sa_filter_false :: "('a, bool) fn \<Rightarrow> 'a pyobj \<Rightarrow> ('a, 'a) event list" where
  "sa_filter_false f stream =
     Return #
     (case async_for_iter stream of Inl e \<Rightarrow> [Raise e] | Inr xs \<Rightarrow> filter_false_loop f xs)"

definition as_filter_false :: "('a, bool) fn \<Rightarrow> 'a pyobj \<Rightarrow> ('a, 'a) event list" where
  "as_filter_false f stream =
     Return # (case for_iter stream of Inl e \<Rightarrow> [Raise e] | Inr xs \<Rightarrow> filter_false_loop f xs)"

definition aa_filter_false :: "('a, bool) fn \<Rightarrow> 'a pyobj \<Rightarrow> ('a, 'a) event list" where
  "aa_filter_false f stream =
     Return #
     (case async_for_iter stream of Inl e \<Rightarrow> [Raise e] | Inr xs \<Rightarrow> filter_false_loop f xs)"

section \<open>GROUP_BY\<close>

text \<open>\<^verbatim>\<open>groups = defaultdict(list)\<close> keeps its keys in insertion order, so it is an
  association list; \<open>append_group k x\<close> is \<^verbatim>\<open>groups[k].append(x)\<close>.\<close>

fun append_group :: "'k \<Rightarrow> 'a \<Rightarrow> ('k \<times> 'a list) list \<Rightarrow> ('k \<times> 'a list) list" where
  "append_group k x [] = [(k, [x])]"
| "append_group k x ((k', g) # groups) =
     (if k = k' then (k', g @ [x]) # groups else (k', g) # append_group k x groups)"

fun group_by_fill :: "('a, 'k) fn \<Rightarrow> ('k \<times> 'a list) list \<Rightarrow> 'a list \<Rightarrow> ('k \<times> 'a list) list" where
  "group_by_fill f groups [] = groups"
| "group_by_fill f groups (x # xs) = group_by_fill f (append_group (call f x) x groups) xs"

fun group_by_reads :: "('a, 'k) fn \<Rightarrow> 'a list \<Rightarrow> ('a, 'a list) event list" where
  "group_by_reads f [] = []"
| "group_by_reads f (x # xs) = Pull x # Call x # group_by_reads f xs"

definition group_by_body :: "('a, 'k) fn \<Rightarrow> 'a list \<Rightarrow> ('a, 'a list) event list" where
  "group_by_body f xs = group_by_reads f xs @ map Yield (map snd (group_by_fill f [] xs))"

definition ss_group_by :: "('a, 'k) fn \<Rightarrow> 'a pyobj \<Rightarrow> ('a, 'a list) event list" where
  "ss_group_by f stream =
     Return # (case for_iter stream of Inl e \<Rightarrow> [Raise e] | Inr xs \<Rightarrow> group_by_body f xs)"

definition sa_group_by :: "('a, 'k) fn \<Rightarrow> 'a pyobj \<Rightarrow> ('a, 'a list) event list" where
  "sa_group_by f stream =
     Return # (case async_for_iter stream of Inl e \<Rightarrow> [Raise e] | Inr xs \<Rightarrow> group_by_body f xs)"

definition as_group_by :: "('a, 'k) fn \<Rightarrow> 'a pyobj \<Rightarrow> ('a, 'a list) event list" where
  "as_group_by f stream =
     Return # (case for_iter stream of Inl e \<Rightarrow> [Raise e] | Inr xs \<Rightarrow> group_by_body f xs)"

definition aa_group_by :: "('a, 'k) fn \<Rightarrow> 'a pyobj \<Rightarrow> ('a, 'a list) event list" where
  "aa_group_by f stream =
     Return # (case async_for_iter stream of Inl e \<Rightarrow> [Raise e] | Inr xs \<Rightarrow> group_by_body f xs)"

section \<open>SKIP_WHILE\<close>

text \<open>\<^verbatim>\<open>itertools.dropwhile\<close> opens the source once, when it is built, and reads that one
  cursor to the end.\<close>

fun forward_loop :: "'a list \<Rightarrow> ('a, 'a) event list" where
  "forward_loop [] = []"
| "forward_loop (x # xs) = Pull x # Yield x # forward_loop xs"

fun dropwhile_loop :: "('a, bool) fn \<Rightarrow> 'a list \<Rightarrow> ('a, 'a) event list" where
  "dropwhile_loop f [] = []"
| "dropwhile_loop f (x # xs) =
     Pull x # Call x # (if call f x then dropwhile_loop f xs else Yield x # forward_loop xs)"

definition ss_skip_while :: "('a, bool) fn \<Rightarrow> 'a pyobj \<Rightarrow> ('a, 'a) event list" where
  "ss_skip_while f stream =
     (case for_iter stream of Inl e \<Rightarrow> [Raise e] | Inr xs \<Rightarrow> Return # dropwhile_loop f xs)"

text \<open>The generators have two loops over \<^verbatim>\<open>stream\<close>. The first ends at the
  \<^verbatim>\<open>break\<close> after the first element that fails the predicate, or when the source is
  exhausted; \<open>skip_while_first\<close> gives its events and what it left unread. The second loop
  opens \<^verbatim>\<open>stream\<close> again.\<close>

fun skip_while_first :: "('a, bool) fn \<Rightarrow> 'a list \<Rightarrow> ('a, 'a) event list \<times> 'a list" where
  "skip_while_first f [] = ([], [])"
| "skip_while_first f (x # xs) =
     (if \<not> call f x then ([Pull x, Call x, Yield x], xs)
      else (Pull x # Call x # fst (skip_while_first f xs), snd (skip_while_first f xs)))"

definition sa_skip_while :: "('a, bool) fn \<Rightarrow> 'a pyobj \<Rightarrow> ('a, 'a) event list" where
  "sa_skip_while f stream =
     Return #
     (case async_for_iter stream of
        Inl e \<Rightarrow> [Raise e]
      | Inr xs \<Rightarrow>
          fst (skip_while_first f xs) @
          (case async_for_iter (after_async_for stream (snd (skip_while_first f xs))) of
             Inl e \<Rightarrow> [Raise e]
           | Inr ys \<Rightarrow> forward_loop ys))"

definition as_skip_while :: "('a, bool) fn \<Rightarrow> 'a pyobj \<Rightarrow> ('a, 'a) event list" where
  "as_skip_while f stream =
     Return #
     (case for_iter stream of
        Inl e \<Rightarrow> [Raise e]
      | Inr xs \<Rightarrow>
          fst (skip_while_first f xs) @
          (case for_iter (after_for stream (snd (skip_while_first f xs))) of
             Inl e \<Rightarrow> [Raise e]
           | Inr ys \<Rightarrow> forward_loop ys))"

definition aa_skip_while :: "('a, bool) fn \<Rightarrow> 'a pyobj \<Rightarrow> ('a, 'a) event list" where
  "aa_skip_while f stream =
     Return #
     (case async_for_iter stream of
        Inl e \<Rightarrow> [Raise e]
      | Inr xs \<Rightarrow>
          fst (skip_while_first f xs) @
          (case async_for_iter (after_async_for stream (snd (skip_while_first f xs))) of
             Inl e \<Rightarrow> [Raise e]
           | Inr ys \<Rightarrow> forward_loop ys))"

section \<open>TAKE_WHILE\<close>

text \<open>\<^verbatim>\<open>itertools.takewhile\<close> and the generators alike stop at the first element that
  fails the predicate; that element has been read.\<close>

fun take_while_loop :: "('a, bool) fn \<Rightarrow> 'a list \<Rightarrow> ('a, 'a) event list" where
  "take_while_loop f [] = []"
| "take_while_loop f (x # xs) =
     Pull x # Call x # (if call f x then Yield x # take_while_loop f xs else [])"

definition ss_take_while :: "('a, bool) fn \<Rightarrow> 'a pyobj \<Rightarrow> ('a, 'a) event list" where
  "ss_take_while f stream =
     (case for_iter stream of Inl e \<Rightarrow> [Raise e] | Inr xs \<Rightarrow> Return # take_while_loop f xs)"

definition sa_take_while :: "('a, bool) fn \<Rightarrow> 'a pyobj \<Rightarrow> ('a, 'a) event list" where
  "sa_take_while f stream =
     Return #
     (case async_for_iter stream of Inl e \<Rightarrow> [Raise e] | Inr xs \<Rightarrow> take_while_loop f xs)"

definition as_take_while :: "('a, bool) fn \<Rightarrow> 'a pyobj \<Rightarrow> ('a, 'a) event list" where
  "as_take_while f stream =
     Return # (case for_iter stream of Inl e \<Rightarrow> [Raise e] | Inr xs \<Rightarrow> take_while_loop f xs)"

definition aa_take_while :: "('a, bool) fn \<Rightarrow> 'a pyobj \<Rightarrow> ('a, 'a) event list" where
  "aa_take_while f stream =
     Return #
     (case async_for_iter stream of Inl e \<Rightarrow> [Raise e] | Inr xs \<Rightarrow> take_while_loop f xs)"

section \<open>SKIP and TAKE\<close>

text \<open>\<^verbatim>\<open>range(limit)\<close> runs \<open>nat limit\<close> times: not at all for a limit below one.\<close>

fun s_skip_discard :: "nat \<Rightarrow> 'a pyobj \<Rightarrow> ('a, 'a) event list \<times> (error + 'a pyobj)" where
  "s_skip_discard 0 stream = ([], Inr stream)"
| "s_skip_discard (Suc n) stream =
     (case py_next stream of
        Inl e \<Rightarrow> if e = StopIteration then ([], Inr stream) else ([], Inl e)
      | Inr (x, stream') \<Rightarrow>
          (Pull x # fst (s_skip_discard n stream'), snd (s_skip_discard n stream')))"

definition s_skip :: "'a pyobj \<Rightarrow> int \<Rightarrow> ('a, 'a) event list" where
  "s_skip stream limit =
     Return #
     fst (s_skip_discard (nat limit) stream) @
     (case snd (s_skip_discard (nat limit) stream) of
        Inl e \<Rightarrow> [Raise e]
      | Inr stream' \<Rightarrow>
          (case for_iter stream' of Inl e \<Rightarrow> [Raise e] | Inr xs \<Rightarrow> forward_loop xs))"

fun a_skip_discard :: "nat \<Rightarrow> 'a pyobj \<Rightarrow> ('a, 'a) event list \<times> (error + 'a pyobj)" where
  "a_skip_discard 0 stream = ([], Inr stream)"
| "a_skip_discard (Suc n) stream =
     (case py_anext stream of
        Inl e \<Rightarrow> if e = StopAsyncIteration then ([], Inr stream) else ([], Inl e)
      | Inr (x, stream') \<Rightarrow>
          (Pull x # fst (a_skip_discard n stream'), snd (a_skip_discard n stream')))"

definition a_skip :: "'a pyobj \<Rightarrow> int \<Rightarrow> ('a, 'a) event list" where
  "a_skip stream limit =
     Return #
     fst (a_skip_discard (nat limit) stream) @
     (case snd (a_skip_discard (nat limit) stream) of
        Inl e \<Rightarrow> [Raise e]
      | Inr stream' \<Rightarrow>
          (case async_for_iter stream' of Inl e \<Rightarrow> [Raise e] | Inr xs \<Rightarrow> forward_loop xs))"

fun s_take_loop :: "nat \<Rightarrow> 'a pyobj \<Rightarrow> ('a, 'a) event list" where
  "s_take_loop 0 stream = []"
| "s_take_loop (Suc n) stream =
     (case py_next stream of
        Inl e \<Rightarrow> if e = StopIteration then [] else [Raise e]
      | Inr (x, stream') \<Rightarrow> Pull x # Yield x # s_take_loop n stream')"

definition s_take :: "'a pyobj \<Rightarrow> int \<Rightarrow> ('a, 'a) event list" where
  "s_take stream limit = Return # s_take_loop (nat limit) stream"

fun a_take_loop :: "nat \<Rightarrow> 'a pyobj \<Rightarrow> ('a, 'a) event list" where
  "a_take_loop 0 stream = []"
| "a_take_loop (Suc n) stream =
     (case py_anext stream of
        Inl e \<Rightarrow> if e = StopAsyncIteration then [] else [Raise e]
      | Inr (x, stream') \<Rightarrow> Pull x # Yield x # a_take_loop n stream')"

definition a_take :: "'a pyobj \<Rightarrow> int \<Rightarrow> ('a, 'a) event list" where
  "a_take stream limit = Return # a_take_loop (nat limit) stream"

section \<open>POOL and STEP_BY\<close>

fun pool_loop :: "int \<Rightarrow> 'a list \<Rightarrow> 'a list \<Rightarrow> ('a, 'a list) event list" where
  "pool_loop size' p [] = (if length p \<noteq> 0 then [Yield p] else [])"
| "pool_loop size' p (x # xs) =
     Pull x #
     (if int (length (p @ [x])) = size' then Yield (p @ [x]) # pool_loop size' [] xs
      else pool_loop size' (p @ [x]) xs)"

definition s_pool :: "'a pyobj \<Rightarrow> int \<Rightarrow> ('a, 'a list) event list" where
  "s_pool stream size' =
     Return # (case for_iter stream of Inl e \<Rightarrow> [Raise e] | Inr xs \<Rightarrow> pool_loop size' [] xs)"

definition a_pool :: "'a pyobj \<Rightarrow> int \<Rightarrow> ('a, 'a list) event list" where
  "a_pool stream size' =
     Return # (case async_for_iter stream of Inl e \<Rightarrow> [Raise e] | Inr xs \<Rightarrow> pool_loop size' [] xs)"

text \<open>\<^verbatim>\<open>itertools.islice(stream, 0, None, step)\<close> checks its step when it is built
  (\<^verbatim>\<open>ValueError\<close> unless the step is at least one and at most \<^verbatim>\<open>sys.maxsize\<close>, which
  is \<open>2 ^ 63 - 1\<close> on a 64-bit build), then opens the source; consumed, it reads every
  element and hands on those at the positions \<open>0, step, 2 * step, \<dots>\<close>.\<close>

definition sys_maxsize :: int where
  "sys_maxsize = 2 ^ 63 - 1"

fun islice_loop :: "int \<Rightarrow> int \<Rightarrow> 'a list \<Rightarrow> ('a, 'a) event list" where
  "islice_loop step c [] = []"
| "islice_loop step c (x # xs) =
     Pull x # (if c mod step = 0 then [Yield x] else []) @ islice_loop step (c + 1) xs"

definition s_step_by :: "'a pyobj \<Rightarrow> int \<Rightarrow> ('a, 'a) event list" where
  "s_step_by stream step =
     (if step < 1 \<or> sys_maxsize < step then [Raise ValueError]
      else case for_iter stream of Inl e \<Rightarrow> [Raise e] | Inr xs \<Rightarrow> Return # islice_loop step 0 xs)"

text \<open>\<^verbatim>\<open>c % step\<close> raises \<^verbatim>\<open>ZeroDivisionError\<close> for a zero step; otherwise Python's
  remainder takes the sign of the divisor, as \<open>mod\<close> on \<open>int\<close> does.\<close>

fun a_step_by_loop :: "int \<Rightarrow> int \<Rightarrow> 'a list \<Rightarrow> ('a, 'a) event list" where
  "a_step_by_loop step c [] = []"
| "a_step_by_loop step c (x # xs) =
     Pull x #
     (if step = 0 then [Raise ZeroDivisionError]
      else (if c mod step = 0 then [Yield x] else []) @ a_step_by_loop step (c + 1) xs)"

definition a_step_by :: "'a pyobj \<Rightarrow> int \<Rightarrow> ('a, 'a) event list" where
  "a_step_by stream step =
     Return #
     (case async_for_iter stream of Inl e \<Rightarrow> [Raise e] | Inr xs \<Rightarrow> a_step_by_loop step 0 xs)"

section \<open>SORT\<close>



text \<open>Integers, strings and \<^verbatim>\<open>None\<close>: Python orders integers among themselves and
  strings among themselves; every other comparison between these values, also
  \<^verbatim>\<open>None < None\<close>, raises \<^verbatim>\<open>TypeError\<close>.\<close>

datatype pyval = PyInt int | PyStr string | PyNone







section \<open>DISTINCT_WITH and FOR_EACH\<close>

fun distinct_with_loop :: "('a, 'k) fn \<Rightarrow> 'k set \<Rightarrow> 'a list \<Rightarrow> ('a, 'a) event list" where
  "distinct_with_loop f seen [] = []"
| "distinct_with_loop f seen (x # xs) =
     Pull x # Call x #
     (if call f x \<in> seen then distinct_with_loop f seen xs
      else Yield x # distinct_with_loop f (insert (call f x) seen) xs)"

definition ss_distinct_with :: "('a, 'k) fn \<Rightarrow> 'a pyobj \<Rightarrow> ('a, 'a) event list" where
  "ss_distinct_with f stream =
     Return #
     (case for_iter stream of Inl e \<Rightarrow> [Raise e] | Inr xs \<Rightarrow> distinct_with_loop f {} xs)"

definition sa_distinct_with :: "('a, 'k) fn \<Rightarrow> 'a pyobj \<Rightarrow> ('a, 'a) event list" where
  "sa_distinct_with f stream =
     Return #
     (case async_for_iter stream of Inl e \<Rightarrow> [Raise e] | Inr xs \<Rightarrow> distinct_with_loop f {} xs)"

definition as_distinct_with :: "('a, 'k) fn \<Rightarrow> 'a pyobj \<Rightarrow> ('a, 'a) event list" where
  "as_distinct_with f stream =
     Return #
     (case for_iter stream of Inl e \<Rightarrow> [Raise e] | Inr xs \<Rightarrow> distinct_with_loop f {} xs)"

definition aa_distinct_with :: "('a, 'k) fn \<Rightarrow> 'a pyobj \<Rightarrow> ('a, 'a) event list" where
  "aa_distinct_with f stream =
     Return #
     (case async_for_iter stream of Inl e \<Rightarrow> [Raise e] | Inr xs \<Rightarrow> distinct_with_loop f {} xs)"

text \<open>\<^verbatim>\<open>for_each\<close> yields \<^verbatim>\<open>None\<close> once per element.\<close>

fun for_each_loop :: "('a, 'b) fn \<Rightarrow> 'a list \<Rightarrow> ('a, unit) event list" where
  "for_each_loop f [] = []"
| "for_each_loop f (x # xs) = Pull x # Call x # Yield () # for_each_loop f xs"

definition ss_for_each :: "('a, 'b) fn \<Rightarrow> 'a pyobj \<Rightarrow> ('a, unit) event list" where
  "ss_for_each f stream =
     Return # (case for_iter stream of Inl e \<Rightarrow> [Raise e] | Inr xs \<Rightarrow> for_each_loop f xs)"

definition as_for_each :: "('a, 'b) fn \<Rightarrow> 'a pyobj \<Rightarrow> ('a, unit) event list" where
  "as_for_each f stream =
     Return # (case for_iter stream of Inl e \<Rightarrow> [Raise e] | Inr xs \<Rightarrow> for_each_loop f xs)"

definition sa_for_each :: "('a, 'b) fn \<Rightarrow> 'a pyobj \<Rightarrow> ('a, unit) event list" where
  "sa_for_each f stream =
     Return # (case async_for_iter stream of Inl e \<Rightarrow> [Raise e] | Inr xs \<Rightarrow> for_each_loop f xs)"

definition aa_for_each :: "('a, 'b) fn \<Rightarrow> 'a pyobj \<Rightarrow> ('a, unit) event list" where
  "aa_for_each f stream =
     Return # (case async_for_iter stream of Inl e \<Rightarrow> [Raise e] | Inr xs \<Rightarrow> for_each_loop f xs)"

section \<open>ZIP\<close>

text \<open>
  \<^verbatim>\<open>zip\<close> reads several cursors and leaves them advanced, so its model passes their
  states along and returns them. Every argument is an object of its own, as an operator
  owns its sources exclusively: one cursor object passed twice is outside the model. One
  round of the \<^verbatim>\<open>while\<close> loop builds a group or is cut short by an exception, the
  cursors read so far staying advanced.
\<close>

fun coerce_all :: "'a pyobj list \<Rightarrow> error + 'a pyobj list" where
  "coerce_all [] = Inr []"
| "coerce_all (stream # streams) =
     (case coerce stream of
        Inl e \<Rightarrow> Inl e
      | Inr c \<Rightarrow> (case coerce_all streams of Inl e \<Rightarrow> Inl e | Inr cs \<Rightarrow> Inr (c # cs)))"

fun zip_round :: "'a pyobj list \<Rightarrow> (error + 'a list) \<times> 'a pyobj list" where
  "zip_round [] = (Inr [], [])"
| "zip_round (stream # streams) =
     (case (if is_async_stream stream then py_anext stream else py_next stream) of
        Inl e \<Rightarrow> (Inl e, stream # streams)
      | Inr (x, stream') \<Rightarrow>
          (case zip_round streams of
             (Inl e, streams') \<Rightarrow> (Inl e, stream' # streams')
           | (Inr grp, streams') \<Rightarrow> (Inr (x # grp), stream' # streams')))"

text \<open>The loop has no bound of its own (\<^verbatim>\<open>while True\<close>): a run that never ends is
  \<open>None\<close>. A finished run gives the events of the generator and the final cursors.\<close>

partial_function (option) zip_loop ::
  "'a pyobj list \<Rightarrow> (('a, 'a list) event list \<times> 'a pyobj list) option" where
  "zip_loop streams =
     (case zip_round streams of
        (Inr grp, streams') \<Rightarrow>
          Option.bind (zip_loop streams') (\<lambda>(es, final). Some (Yield grp # es, final))
      | (Inl e, streams') \<Rightarrow>
          if e = StopIteration \<or> e = StopAsyncIteration then Some ([], streams')
          else Some ([Raise e], streams'))"

declare zip_loop.simps [code]

definition zip_op :: "'a pyobj list \<Rightarrow> (('a, 'a list) event list \<times> 'a pyobj list) option" where
  "zip_op streams =
     (case coerce_all streams of
        Inl e \<Rightarrow> Some ([Return, Raise e], streams)
      | Inr cs \<Rightarrow> Option.bind (zip_loop cs) (\<lambda>(es, final). Some (Return # es, final)))"

section \<open>FLATTEN\<close>

text \<open>The source of \<^verbatim>\<open>flatten\<close> delivers streams; each is coerced when its turn comes
  and read to its end. \<open>Pull\<close> records the inner stream taken from the source, \<open>Yield\<close>
  its elements.\<close>

fun flatten_loop :: "'a pyobj list \<Rightarrow> ('a pyobj, 'a) event list" where
  "flatten_loop [] = []"
| "flatten_loop (stream # streams) =
     Pull stream #
     (case coerce stream of
        Inl e \<Rightarrow> [Raise e]
      | Inr stream' \<Rightarrow>
          (case (if is_async_stream stream' then async_for_iter stream' else for_iter stream') of
             Inl e \<Rightarrow> [Raise e]
           | Inr xs \<Rightarrow> map Yield xs @ flatten_loop streams))"

definition s_flatten :: "'a pyobj pyobj \<Rightarrow> unit \<Rightarrow> ('a pyobj, 'a) event list" where
  "s_flatten streams args =
     Return # (case for_iter streams of Inl e \<Rightarrow> [Raise e] | Inr ss \<Rightarrow> flatten_loop ss)"

definition a_flatten :: "'a pyobj pyobj \<Rightarrow> unit \<Rightarrow> ('a pyobj, 'a) event list" where
  "a_flatten streams args =
     Return # (case async_for_iter streams of Inl e \<Rightarrow> [Raise e] | Inr ss \<Rightarrow> flatten_loop ss)"

section \<open>FINAL_EXPORT_ALIASES\<close>

definition flatten :: "'a pyobj pyobj \<Rightarrow> unit \<Rightarrow> ('a pyobj, 'a) event list" where
  "flatten = factory s_flatten a_flatten"

definition distinct_with :: "('a, 'k) fn \<Rightarrow> 'a pyobj \<Rightarrow> ('a, 'a) event list" where
  "distinct_with =
     higher_order_factory ss_distinct_with sa_distinct_with as_distinct_with aa_distinct_with"

definition filter_op :: "('a, bool) fn \<Rightarrow> 'a pyobj \<Rightarrow> ('a, 'a) event list" where
  "filter_op = higher_order_factory ss_filter sa_filter as_filter aa_filter"

definition filter_false :: "('a, bool) fn \<Rightarrow> 'a pyobj \<Rightarrow> ('a, 'a) event list" where
  "filter_false =
     higher_order_factory ss_filter_false sa_filter_false as_filter_false aa_filter_false"

definition for_each :: "('a, 'b) fn \<Rightarrow> 'a pyobj \<Rightarrow> ('a, unit) event list" where
  "for_each = higher_order_factory ss_for_each sa_for_each as_for_each aa_for_each"

definition group_by :: "('a, 'k) fn \<Rightarrow> 'a pyobj \<Rightarrow> ('a, 'a list) event list" where
  "group_by = higher_order_factory ss_group_by sa_group_by as_group_by aa_group_by"

definition inspect :: "('a, 'b) fn \<Rightarrow> 'a pyobj \<Rightarrow> ('a, 'a) event list" where
  "inspect = higher_order_factory ss_inspect sa_inspect as_inspect aa_inspect"

definition map_op :: "('a, 'b) fn \<Rightarrow> 'a pyobj \<Rightarrow> ('a, 'b) event list" where
  "map_op = higher_order_factory ss_map sa_map as_map aa_map"

definition pool :: "'a pyobj \<Rightarrow> int \<Rightarrow> ('a, 'a list) event list" where
  "pool = factory s_pool a_pool"

definition skip_while :: "('a, bool) fn \<Rightarrow> 'a pyobj \<Rightarrow> ('a, 'a) event list" where
  "skip_while = higher_order_factory ss_skip_while sa_skip_while as_skip_while aa_skip_while"

definition skip :: "'a pyobj \<Rightarrow> int \<Rightarrow> ('a, 'a) event list" where
  "skip = factory s_skip a_skip"


definition step_by :: "'a pyobj \<Rightarrow> int \<Rightarrow> ('a, 'a) event list" where
  "step_by = factory s_step_by a_step_by"

definition take_while :: "('a, bool) fn \<Rightarrow> 'a pyobj \<Rightarrow> ('a, 'a) event list" where
  "take_while = higher_order_factory ss_take_while sa_take_while as_take_while aa_take_while"

definition take_op :: "'a pyobj \<Rightarrow> int \<Rightarrow> ('a, 'a) event list" where
  "take_op = factory s_take a_take"

section \<open>Notions used in the statements\<close>

text \<open>A stream is a value that passes one of the four checks of \<open>coerce\<close>.\<close>

definition is_stream :: "'a pyobj \<Rightarrow> bool" where
  "is_stream v = (is_AsyncIterator v \<or> is_AsyncIterable v \<or> is_Iterator v \<or> is_Iterable v)"




text \<open>The keys of a list in the order of their first occurrence.\<close>

fun first_seen :: "'k list \<Rightarrow> 'k list" where
  "first_seen [] = []"
| "first_seen (k # ks) = k # filter (\<lambda>k'. k' \<noteq> k) (first_seen ks)"

text \<open>For \<open>zip\<close>: a cursor after \<open>n\<close> reads, the length of the shortest source, and the
  position of the first source of that length, which is the first to signal exhaustion.\<close>

definition advance :: "nat \<Rightarrow> 'a pyobj \<Rightarrow> 'a pyobj" where
  "advance n c = c\<lparr>items := drop n (items c)\<rparr>"

definition shortest :: "'a pyobj list \<Rightarrow> nat" where
  "shortest srcs = Min (set (map (\<lambda>s. length (items s)) srcs))"

definition first_exhausted :: "'a pyobj list \<Rightarrow> nat" where
  "first_exhausted srcs = length (takeWhile (\<lambda>s. shortest srcs < length (items s)) srcs)"

text \<open>What \<open>coerce\<close> returns is a cursor: an object that answers the pull \<open>zip\<close> makes
  on it. \<open>zip_final\<close> is the state in which \<open>zip\<close> leaves its cursors: each read up to
  the length of the shortest, and those before the first exhausted one read once more.\<close>

definition cursor :: "'a pyobj \<Rightarrow> bool" where
  "cursor c = (if is_async_stream c then has_anext c else has_next c)"

definition zip_final :: "'a pyobj list \<Rightarrow> 'a pyobj list" where
  "zip_final cs =
     map (advance 1) (takeWhile (\<lambda>c. items c \<noteq> []) (map (advance (shortest cs)) cs)) @
     dropWhile (\<lambda>c. items c \<noteq> []) (map (advance (shortest cs)) cs)"

section \<open>Basic facts\<close>

lemmas isinstance_defs =
  is_AsyncIterator_def is_AsyncIterable_def is_Iterator_def is_Iterable_def is_async_stream_def

lemmas concrete_defs =
  py_list_def sync_iterator_def async_iterable_def async_iterator_def not_a_stream_def
  isinstance_defs dunder_iter_def dunder_aiter_def for_iter_def async_for_iter_def
  after_for_def after_async_for_def higher_order_factory_def

lemma items_dunder_iter: "items (dunder_iter v) = items v"
  by (simp add: dunder_iter_def sync_iterator_def)

lemma items_dunder_aiter: "items (dunder_aiter v) = items v"
  by (simp add: dunder_aiter_def async_iterator_def)

lemma items_simps:
  "items (py_list xs) = xs" "items (sync_iterator xs) = xs"
  "items (async_iterable xs) = xs" "items (async_iterator xs) = xs"
  by (simp_all add: py_list_def sync_iterator_def async_iterable_def async_iterator_def)

lemma is_async_simps:
  "\<not> is_async_stream (py_list xs)" "\<not> is_async_stream (sync_iterator xs)"
  "is_async_stream (async_iterable xs)" "is_async_stream (async_iterator xs)"
  by (simp_all add: py_list_def sync_iterator_def async_iterable_def async_iterator_def isinstance_defs)

lemma is_stream_examples:
  "is_stream (py_list xs)" "is_stream (sync_iterator xs)"
  "is_stream (async_iterable xs)" "is_stream (async_iterator xs)"
  by (simp_all add: is_stream_def py_list_def sync_iterator_def async_iterable_def
      async_iterator_def isinstance_defs)

lemma stream_opens:
  assumes "is_stream s"
  shows "\<not> is_async_stream s \<Longrightarrow> for_iter s = Inr (items s)"
    and "is_async_stream s \<Longrightarrow> async_for_iter s = Inr (items s)"
  using assms
  by (auto simp: is_stream_def isinstance_defs for_iter_def async_for_iter_def
      items_dunder_iter items_dunder_aiter)

lemma coerce_error: "coerce v = Inl e \<Longrightarrow> e = TypeError"
  by (auto simp: coerce_def split: if_splits)

lemma coerce_stream: "is_stream v \<Longrightarrow> \<exists>c. coerce v = Inr c"
  by (auto simp: is_stream_def coerce_def)

lemma coerce_items: "coerce v = Inr c \<Longrightarrow> items c = items v"
  by (auto simp: coerce_def items_dunder_iter items_dunder_aiter split: if_splits)

lemma coerce_async: "coerce v = Inr c \<Longrightarrow> is_async_stream c \<Longrightarrow> has_anext c \<and> has_aiter c"
  by (auto simp: coerce_def isinstance_defs dunder_iter_def dunder_aiter_def sync_iterator_def
      async_iterator_def split: if_splits)

lemma coerce_sync: "coerce v = Inr c \<Longrightarrow> \<not> is_async_stream c \<Longrightarrow> has_next c \<and> has_iter c"
  by (auto simp: coerce_def isinstance_defs dunder_iter_def dunder_aiter_def sync_iterator_def
      async_iterator_def split: if_splits)

lemma coerce_is_async: "coerce v = Inr c \<Longrightarrow> is_async_stream c = is_async_stream v"
  by (auto simp: coerce_def isinstance_defs dunder_iter_def dunder_aiter_def sync_iterator_def
      async_iterator_def split: if_splits)

lemma yields_append: "yields (es @ fs) = yields es @ yields fs"
  by (induction es rule: yields.induct) auto

lemma pulls_append: "pulls (es @ fs) = pulls es @ pulls fs"
  by (induction es rule: pulls.induct) auto

lemma calls_append: "calls (es @ fs) = calls es @ calls fs"
  by (induction es rule: calls.induct) auto

lemma raised_append: "raised (es @ fs) = (case raised es of Some e \<Rightarrow> Some e | None \<Rightarrow> raised fs)"
  by (induction es rule: raised.induct) auto

lemma raised_map_Yield: "raised (map Yield xs) = None"
  by (induction xs) auto

lemma yields_map_Yield: "yields (map (\<lambda>x. Yield (g x)) xs) = map g xs"
  by (induction xs) auto

lemma raised_map_Yield_fn: "raised (map (\<lambda>x. Yield (g x)) xs) = None"
  by (induction xs) auto

lemma yields_map_Pull: "yields (map Pull xs) = []"
  by (induction xs) auto

lemma raised_map_Pull: "raised (map Pull xs) = None"
  by (induction xs) auto

lemma pulls_map_Pull: "pulls (map Pull xs) = xs"
  by (induction xs) auto

lemma forward_loop_obs:
  "yields (forward_loop xs) = xs" "pulls (forward_loop xs) = xs" "raised (forward_loop xs) = None"
  "calls (forward_loop xs) = []"
  by (induction xs) auto

section \<open>Coercion\<close>

lemma coerce_all_rejects:
  "v \<in> set vs \<Longrightarrow> coerce v = Inl TypeError \<Longrightarrow> coerce_all vs = Inl TypeError"
proof (induction vs)
  case Nil
  then show ?case by simp
next
  case (Cons w ws)
  show ?case
  proof (cases "coerce w")
    case (Inl e)
    then show ?thesis using coerce_error [OF Inl] by simp
  next
    case (Inr c)
    with Cons have "v \<in> set ws" by auto
    with Cons have "coerce_all ws = Inl TypeError" by simp
    with Inr show ?thesis by simp
  qed
qed

lemma flatten_loop_rejects:
  "v \<in> set vs \<Longrightarrow> coerce v = Inl TypeError \<Longrightarrow> raised (flatten_loop vs) = Some TypeError"
proof (induction vs)
  case Nil
  then show ?case by simp
next
  case (Cons w ws)
  show ?case
  proof (cases "v = w")
    case True
    with Cons.prems show ?thesis by simp
  next
    case False
    with Cons have IH: "raised (flatten_loop ws) = Some TypeError" by simp
    show ?thesis
      using IH
      by (auto simp: raised_append raised_map_Yield for_iter_def async_for_iter_def
          split: sum.splits if_splits dest: coerce_error)
  qed
qed

text \<open>
  C3. A value that is neither an \<^verbatim>\<open>AsyncIterator\<close>, an \<^verbatim>\<open>AsyncIterable\<close>, an
  \<^verbatim>\<open>Iterator\<close> nor an \<^verbatim>\<open>Iterable\<close> makes \<open>coerce\<close> raise \<^verbatim>\<open>TypeError\<close>, and the
  error ends every invocation that coerces it: an operator built by \<open>factory\<close> raises it
  at the call, \<open>zip\<close> raises it when one of its arguments is such a value, and \<open>flatten\<close>
  raises it when its source delivers one.
\<close>

theorem coerce_rejects_non_streams:
  assumes "\<not> is_AsyncIterator v" and "\<not> is_AsyncIterable v"
    and "\<not> is_Iterator v" and "\<not> is_Iterable v"
  shows "coerce v = Inl TypeError \<and>
         factory s a v args = [Raise TypeError] \<and>
         (v \<in> set streams \<longrightarrow> zip_op streams = Some ([Return, Raise TypeError], streams)) \<and>
         (v \<in> set (items outer) \<and> coerce outer \<noteq> Inl TypeError \<longrightarrow>
            raised (flatten outer ()) = Some TypeError)"
proof -
  have c: "coerce v = Inl TypeError"
    using assms by (simp add: coerce_def)
  have f: "factory s a v args = [Raise TypeError]"
    by (simp add: factory_def c)
  have z: "zip_op streams = Some ([Return, Raise TypeError], streams)" if "v \<in> set streams"
    by (simp add: zip_op_def coerce_all_rejects [OF that c])
  have fl: "raised (flatten outer ()) = Some TypeError"
    if "v \<in> set (items outer)" and "coerce outer \<noteq> Inl TypeError"
  proof -
    from that(2) obtain st where st: "coerce outer = Inr st"
      by (cases "coerce outer") (auto dest: coerce_error)
    have it: "items st = items outer"
      using st by (auto simp: coerce_def items_dunder_iter items_dunder_aiter split: if_splits)
    have "is_async_stream st \<Longrightarrow> has_aiter st"
      by (auto simp: is_async_stream_def is_AsyncIterator_def is_AsyncIterable_def)
    moreover have "\<not> is_async_stream st \<Longrightarrow> has_iter st"
      using st by (auto simp: coerce_def is_async_stream_def is_AsyncIterator_def is_AsyncIterable_def
          is_Iterator_def is_Iterable_def dunder_iter_def dunder_aiter_def sync_iterator_def async_iterator_def
          split: if_splits)
    ultimately show ?thesis
      using flatten_loop_rejects [OF that(1) c]
      by (simp add: flatten_def factory_def st s_flatten_def a_flatten_def for_iter_def
          async_for_iter_def it items_dunder_iter items_dunder_aiter)
  qed
  from c f z fl show ?thesis by blast
qed

theorem coerce_rejects_non_streams_witness:
  "\<not> is_AsyncIterator (not_a_stream :: int pyobj) \<and> \<not> is_AsyncIterable (not_a_stream :: int pyobj) \<and>
   \<not> is_Iterator (not_a_stream :: int pyobj) \<and> \<not> is_Iterable (not_a_stream :: int pyobj) \<and>
   not_a_stream \<in> set [py_list [1 :: int], not_a_stream] \<and>
   coerce (py_list [py_list [1 :: int], not_a_stream]) \<noteq> Inl TypeError \<and>
   coerce (not_a_stream :: int pyobj) = Inl TypeError \<and>
   pool (not_a_stream :: int pyobj) 2 = [Raise TypeError] \<and>
   zip_op [py_list [1 :: int], not_a_stream] =
     Some ([Return, Raise TypeError], [py_list [1], not_a_stream]) \<and>
   raised (flatten (py_list [py_list [1 :: int], not_a_stream]) ()) = Some TypeError"
proof -
  have h: "\<not> is_AsyncIterator (not_a_stream :: int pyobj)" "\<not> is_AsyncIterable (not_a_stream :: int pyobj)"
    "\<not> is_Iterator (not_a_stream :: int pyobj)" "\<not> is_Iterable (not_a_stream :: int pyobj)"
    by (simp_all add: not_a_stream_def is_AsyncIterator_def is_AsyncIterable_def is_Iterator_def
        is_Iterable_def)
  have m: "not_a_stream \<in> set [py_list [1 :: int], not_a_stream]" by simp
  have o: "coerce (py_list [py_list [1 :: int], not_a_stream]) \<noteq> Inl TypeError"
    by (simp add: coerce_def py_list_def is_AsyncIterator_def is_AsyncIterable_def is_Iterator_def
        is_Iterable_def)
  have m2: "not_a_stream \<in> set (items (py_list [py_list [1 :: int], not_a_stream]))"
    by (simp add: py_list_def)
  show ?thesis
    using h m m2 o
      coerce_rejects_non_streams [OF h, of s_pool a_pool 2 "[py_list [1 :: int], not_a_stream]"
        "py_list [py_list [1 :: int], not_a_stream]"]
    unfolding pool_def by blast
qed

section \<open>Group by\<close>

lemma set_first_seen: "set (first_seen ks) = set ks"
  by (induction ks) auto

lemma distinct_first_seen: "distinct (first_seen ks)"
  by (induction ks) (auto simp: set_first_seen)

lemma first_seen_snoc:
  "first_seen (ks @ [k]) = (if k \<in> set ks then first_seen ks else first_seen ks @ [k])"
  by (induction ks) auto

lemma group_by_fill_snoc:
  "group_by_fill f groups (xs @ [x]) = append_group (call f x) x (group_by_fill f groups xs)"
  by (induction xs arbitrary: groups) auto

lemma append_group_new:
  "k \<notin> set ks \<Longrightarrow> append_group k x (map (\<lambda>k'. (k', h k')) ks) = map (\<lambda>k'. (k', h k')) ks @ [(k, [x])]"
  by (induction ks) auto

lemma append_group_old:
  "k \<in> set ks \<Longrightarrow> distinct ks \<Longrightarrow>
     append_group k x (map (\<lambda>k'. (k', h k')) ks) =
     map (\<lambda>k'. (k', if k' = k then h k' @ [x] else h k')) ks"
  by (induction ks) auto

lemma group_by_fill_eq:
  "group_by_fill f [] xs =
     map (\<lambda>k. (k, filter (\<lambda>x. call f x = k) xs)) (first_seen (map (call f) xs))"
proof (induction xs rule: rev_induct)
  case Nil
  then show ?case by simp
next
  case (snoc x xs)
  let ?k = "call f x"
  let ?ks = "first_seen (map (call f) xs)"
  show ?case
  proof (cases "?k \<in> set (map (call f) xs)")
    case True
    then have m: "?k \<in> set ?ks" by (simp add: set_first_seen)
    have "group_by_fill f [] (xs @ [x]) =
        map (\<lambda>k'. (k', if k' = ?k then filter (\<lambda>x. call f x = k') xs @ [x]
                         else filter (\<lambda>x. call f x = k') xs)) ?ks"
      unfolding group_by_fill_snoc snoc.IH
      by (rule append_group_old [OF m distinct_first_seen])
    also have "\<dots> = map (\<lambda>k. (k, filter (\<lambda>x. call f x = k) (xs @ [x]))) ?ks"
      by (rule map_cong) auto
    finally show ?thesis using True by (simp add: first_seen_snoc)
  next
    case False
    then have m: "?k \<notin> set ?ks" by (simp add: set_first_seen)
    have e: "filter (\<lambda>y. call f y = ?k) xs = []"
      using False by (force simp: filter_empty_conv image_iff)
    have "group_by_fill f [] (xs @ [x]) =
        map (\<lambda>k. (k, filter (\<lambda>x. call f x = k) xs)) ?ks @ [(?k, [x])]"
      unfolding group_by_fill_snoc snoc.IH
      by (rule append_group_new [OF m])
    also have "map (\<lambda>k. (k, filter (\<lambda>x. call f x = k) xs)) ?ks =
        map (\<lambda>k. (k, filter (\<lambda>x. call f x = k) (xs @ [x]))) ?ks"
      using m by (intro map_cong) auto
    finally show ?thesis using False e by (simp add: first_seen_snoc)
  qed
qed

lemma group_by_reads_obs:
  "pulls (group_by_reads f xs) = xs" "calls (group_by_reads f xs) = xs"
  "yields (group_by_reads f xs) = []" "raised (group_by_reads f xs) = None"
  by (induction xs) auto

lemma group_by_run:
  assumes "is_stream s"
  shows "group_by f s = Return # group_by_body f (items s)"
proof (cases "is_async_stream s")
  case True
  then have "has_aiter s" by (auto simp: isinstance_defs)
  with True show ?thesis
    by (cases f)
      (simp_all add: group_by_def higher_order_factory_def sa_group_by_def aa_group_by_def
        async_for_iter_def items_dunder_aiter)
next
  case False
  with assms have "has_iter s" by (auto simp: is_stream_def isinstance_defs)
  with False show ?thesis
    by (cases f)
      (simp_all add: group_by_def higher_order_factory_def ss_group_by_def as_group_by_def
        for_iter_def items_dunder_iter)
qed

text \<open>
  C6. Over a stream, with any key function (plain or coroutine), \<open>group_by\<close> first reads
  the whole source, yielding nothing while it reads, and then yields its buckets: one per
  distinct key, in the order in which the keys were first seen, each bucket holding the
  elements of its key in source order. For \<open>x mod 2\<close> over \<open>[1, 2, 3, 4]\<close> the buckets are
  \<open>[1, 3]\<close> and \<open>[2, 4]\<close>.
\<close>

theorem group_by_buckets:
  assumes "is_stream s"
  shows "\<exists>reads buckets.
           group_by f s = Return # reads @ map Yield buckets \<and>
           pulls reads = items s \<and> yields reads = [] \<and> raised reads = None \<and>
           buckets = map (\<lambda>k. filter (\<lambda>x. call f x = k) (items s))
                       (first_seen (map (call f) (items s))) \<and>
           length buckets = card (call f ` set (items s))"
proof -
  let ?ks = "first_seen (map (call f) (items s))"
  have "length ?ks = card (set ?ks)"
    using distinct_first_seen [of "map (call f) (items s)"] by (simp add: distinct_card)
  then have "length ?ks = card (call f ` set (items s))"
    by (simp add: set_first_seen)
  then show ?thesis
    by (simp add: group_by_run [OF assms] group_by_body_def group_by_fill_eq group_by_reads_obs
        comp_def)
qed

theorem group_by_buckets_witness:
  "is_stream (py_list [1, 2, 3, 4 :: int]) \<and>
   (\<exists>reads buckets.
      group_by (Sync (\<lambda>x. x mod 2)) (py_list [1, 2, 3, 4 :: int]) = Return # reads @ map Yield buckets \<and>
      pulls reads = [1, 2, 3, 4] \<and> yields reads = [] \<and> raised reads = None \<and>
      buckets = [[1, 3], [2, 4]] \<and> length buckets = card {1, 0 :: int})"
  using group_by_buckets [OF is_stream_examples(1), of "Sync (\<lambda>x. x mod 2)" "[1, 2, 3, 4 :: int]"]
  by (auto simp: is_stream_examples(1) items_simps)

section \<open>The dispatcher of the operators that take a function\<close>

text \<open>The eight operators with a single loop over their source do the same in all four
  variants, on every stream: the run is the loop over the elements of the source, and the
  loop does not depend on whether the function is plain or a coroutine function.\<close>

lemma single_loop_operators:
  assumes "is_stream s"
  shows "map_op f s = Return # map_loop f (items s)"
    and "filter_op p s = Return # filter_loop p (items s)"
    and "filter_false p s = Return # filter_false_loop p (items s)"
    and "inspect f s = Return # inspect_loop f (items s)"
    and "for_each f s = Return # for_each_loop f (items s)"
    and "take_while p s = Return # take_while_loop p (items s)"
    and "group_by h s = Return # group_by_body h (items s)"
    and "distinct_with h s = Return # distinct_with_loop h {} (items s)"
proof -
  note o = stream_opens [OF assms]
  show "map_op f s = Return # map_loop f (items s)"
    by (cases f; cases "is_async_stream s")
      (simp_all add: map_op_def higher_order_factory_def ss_map_def sa_map_def as_map_def
        aa_map_def o)
  show "filter_op p s = Return # filter_loop p (items s)"
    by (cases p; cases "is_async_stream s")
      (simp_all add: filter_op_def higher_order_factory_def ss_filter_def sa_filter_def
        as_filter_def aa_filter_def o)
  have ff: "filter_loop (Sync (\<lambda>x. \<not> g x)) xs = filter_false_loop (Sync g) xs" for g and xs :: "'a list"
    by (induction xs) auto
  show "filter_false p s = Return # filter_false_loop p (items s)"
    by (cases p; cases "is_async_stream s")
      (simp_all add: filter_false_def higher_order_factory_def ss_filter_false_def ss_filter_def
        sa_filter_false_def as_filter_false_def aa_filter_false_def o ff)
  show "inspect f s = Return # inspect_loop f (items s)"
    by (cases f; cases "is_async_stream s")
      (simp_all add: inspect_def higher_order_factory_def ss_inspect_def sa_inspect_def
        as_inspect_def aa_inspect_def o)
  show "for_each f s = Return # for_each_loop f (items s)"
    by (cases f; cases "is_async_stream s")
      (simp_all add: for_each_def higher_order_factory_def ss_for_each_def sa_for_each_def
        as_for_each_def aa_for_each_def o)
  show "take_while p s = Return # take_while_loop p (items s)"
    by (cases p; cases "is_async_stream s")
      (simp_all add: take_while_def higher_order_factory_def ss_take_while_def sa_take_while_def
        as_take_while_def aa_take_while_def o)
  show "group_by h s = Return # group_by_body h (items s)"
    by (rule group_by_run [OF assms])
  show "distinct_with h s = Return # distinct_with_loop h {} (items s)"
    by (cases h; cases "is_async_stream s")
      (simp_all add: distinct_with_def higher_order_factory_def ss_distinct_with_def
        sa_distinct_with_def as_distinct_with_def aa_distinct_with_def o)
qed

lemma loops_ignore_kind:
  "map_loop (Sync g) xs = map_loop (Coroutine g) xs"
  "filter_loop (Sync q) xs = filter_loop (Coroutine q) xs"
  "filter_false_loop (Sync q) xs = filter_false_loop (Coroutine q) xs"
  "inspect_loop (Sync g) xs = inspect_loop (Coroutine g) xs"
  "for_each_loop (Sync g) xs = for_each_loop (Coroutine g) xs"
  "take_while_loop (Sync q) xs = take_while_loop (Coroutine q) xs"
  "group_by_body (Sync k) xs = group_by_body (Coroutine k) xs"
  "distinct_with_loop (Sync k) seen xs = distinct_with_loop (Coroutine k) seen xs"
proof -
  show "map_loop (Sync g) xs = map_loop (Coroutine g) xs" by (induction xs) auto
  show "filter_loop (Sync q) xs = filter_loop (Coroutine q) xs" by (induction xs) auto
  show "filter_false_loop (Sync q) xs = filter_false_loop (Coroutine q) xs" by (induction xs) auto
  show "inspect_loop (Sync g) xs = inspect_loop (Coroutine g) xs" by (induction xs) auto
  show "for_each_loop (Sync g) xs = for_each_loop (Coroutine g) xs" by (induction xs) auto
  show "take_while_loop (Sync q) xs = take_while_loop (Coroutine q) xs" by (induction xs) auto
  have "group_by_reads (Sync k) xs = group_by_reads (Coroutine k) xs" by (induction xs) auto
  moreover have "call (Sync k) = k" and "call (Coroutine k) = k" by (rule ext, simp)+
  ultimately show "group_by_body (Sync k) xs = group_by_body (Coroutine k) xs"
    by (simp add: group_by_body_def group_by_fill_eq)
  show "distinct_with_loop (Sync k) seen xs = distinct_with_loop (Coroutine k) seen xs"
    by (induction xs arbitrary: seen) auto
qed

text \<open>
  C4 at a failing input. With a source that is no stream, \<open>inspect\<close> and \<open>group_by\<close>
  with a plain function, and \<open>map\<close> with a coroutine function, return their generator;
  \<^verbatim>\<open>TypeError\<close> is raised only when the first element is demanded. The dispatcher does
  not call \<open>coerce\<close>.
\<close>

theorem inspect_defers_type_error:
  "inspect (Sync (\<lambda>x :: int. x)) not_a_stream = [Return, Raise TypeError] \<and>
   group_by (Sync (\<lambda>x :: int. x)) not_a_stream = [Return, Raise TypeError] \<and>
   map_op (Coroutine (\<lambda>x :: int. x)) not_a_stream = [Return, Raise TypeError]"
  by (simp add: inspect_def ss_inspect_def group_by_def ss_group_by_def map_op_def as_map_def
      concrete_defs)

lemma skip_while_first_obs:
  "yields (fst (skip_while_first f xs)) = take 1 (dropWhile (call f) xs)"
  "calls (fst (skip_while_first f xs)) = takeWhile (call f) xs @ take 1 (dropWhile (call f) xs)"
  "pulls (fst (skip_while_first f xs)) = takeWhile (call f) xs @ take 1 (dropWhile (call f) xs)"
  "raised (fst (skip_while_first f xs)) = None"
  "snd (skip_while_first f xs) = tl (dropWhile (call f) xs)"
  by (induction xs) auto

lemma dropwhile_loop_obs:
  "yields (dropwhile_loop f xs) = dropWhile (call f) xs"
  "calls (dropwhile_loop f xs) = takeWhile (call f) xs @ take 1 (dropWhile (call f) xs)"
  "pulls (dropwhile_loop f xs) = xs"
  "raised (dropwhile_loop f xs) = None"
  by (induction xs) (auto simp: forward_loop_obs)

lemma take1_tl: "take (Suc 0) xs @ tl xs = xs"
  by (cases xs) auto

lemma takeWhile_take1_tl:
  "takeWhile P xs @ take (Suc 0) (dropWhile P xs) @ tl (dropWhile P xs) = xs"
  by (simp add: take1_tl)

text \<open>On a source that is already a cursor (\<open>coerce\<close> returns it unchanged) all four
  variants of \<open>skip_while\<close> drop the leading run and forward the rest, and call the
  function on the leading run and on the first element that fails, no more.\<close>

lemma skip_while_on_cursor:
  assumes "coerce s = Inr s"
  shows "yields (skip_while f s) = dropWhile (call f) (items s) \<and>
         calls (skip_while f s) = takeWhile (call f) (items s) @ take 1 (dropWhile (call f) (items s)) \<and>
         pulls (skip_while f s) = items s \<and>
         raised (skip_while f s) = None"
proof (cases "is_async_stream s")
  case True
  with coerce_async [OF assms] have h: "has_anext s" "has_aiter s" by simp_all
  with True show ?thesis
    by (cases f)
      (simp_all add: skip_while_def higher_order_factory_def sa_skip_while_def aa_skip_while_def
        async_for_iter_def after_async_for_def dunder_aiter_def yields_append calls_append
        pulls_append raised_append skip_while_first_obs forward_loop_obs take1_tl
        takeWhile_take1_tl)
next
  case False
  with coerce_sync [OF assms] have h: "has_next s" "has_iter s" by simp_all
  with False show ?thesis
    by (cases f)
      (simp_all add: skip_while_def higher_order_factory_def ss_skip_while_def as_skip_while_def
        for_iter_def after_for_def dunder_iter_def yields_append calls_append
        pulls_append raised_append skip_while_first_obs forward_loop_obs dropwhile_loop_obs
        take1_tl takeWhile_take1_tl)
qed

text \<open>
  C1 at a failing input. \<open>higher_order_factory\<close> hands the source to the chosen variant
  as it is, without \<open>coerce\<close>. With the predicate \<open>x < 2\<close> over the list \<open>[1, 2, 3]\<close>, the
  plain function on the list (\<^verbatim>\<open>dropwhile\<close>) yields \<open>[2, 3]\<close>; the coroutine function on
  the same list, and either function on an async iterable of the same elements, yield
  \<open>[2, 1, 2, 3]\<close>: the second loop of the generator opens the source again.
\<close>

theorem skip_while_variants_disagree:
  "yields (skip_while (Sync (\<lambda>x. x < 2)) (py_list [1, 2, 3 :: int])) = [2, 3] \<and>
   yields (skip_while (Coroutine (\<lambda>x. x < 2)) (py_list [1, 2, 3 :: int])) = [2, 1, 2, 3] \<and>
   yields (skip_while (Sync (\<lambda>x. x < 2)) (async_iterable [1, 2, 3 :: int])) = [2, 1, 2, 3] \<and>
   yields (skip_while (Coroutine (\<lambda>x. x < 2)) (async_iterable [1, 2, 3 :: int])) = [2, 1, 2, 3]"
  by (simp add: skip_while_def ss_skip_while_def sa_skip_while_def as_skip_while_def
      aa_skip_while_def concrete_defs)

text \<open>
  C8 at a failing input. Over the list \<open>[1, 5, 1]\<close> with a coroutine predicate \<open>x < 2\<close>,
  \<open>skip_while\<close> drops the leading \<open>1\<close>, yields \<open>5\<close>, and then yields the whole list from
  its start, the dropped \<open>1\<close> included. Over an async iterable \<open>[1, 1]\<close>, where every
  element satisfies the predicate, it yields both elements instead of none.
\<close>

theorem skip_while_rereads_container:
  "skip_while (Coroutine (\<lambda>x. x < 2)) (py_list [1, 5, 1 :: int]) =
     [Return, Pull 1, Call 1, Pull 5, Call 5, Yield 5,
      Pull 1, Yield 1, Pull 5, Yield 5, Pull 1, Yield 1] \<and>
   skip_while (Sync (\<lambda>x. x < 2)) (async_iterable [1, 1 :: int]) =
     [Return, Pull 1, Call 1, Pull 1, Call 1, Pull 1, Yield 1, Pull 1, Yield 1]"
  by (simp add: skip_while_def sa_skip_while_def as_skip_while_def concrete_defs)

section \<open>Take and skip\<close>

lemma s_take_loop_obs:
  "has_next c \<Longrightarrow> yields (s_take_loop n c) = take n (items c) \<and>
     pulls (s_take_loop n c) = take n (items c) \<and> raised (s_take_loop n c) = None"
proof (induction n arbitrary: c)
  case 0
  then show ?case by simp
next
  case (Suc n)
  show ?case
  proof (cases "items c")
    case Nil
    with Suc.prems show ?thesis by (simp add: py_next_def)
  next
    case (Cons x xs)
    with Suc.prems Suc.IH [of "c\<lparr>items := xs\<rparr>"] show ?thesis by (simp add: py_next_def)
  qed
qed

lemma a_take_loop_obs:
  "has_anext c \<Longrightarrow> yields (a_take_loop n c) = take n (items c) \<and>
     pulls (a_take_loop n c) = take n (items c) \<and> raised (a_take_loop n c) = None"
proof (induction n arbitrary: c)
  case 0
  then show ?case by simp
next
  case (Suc n)
  show ?case
  proof (cases "items c")
    case Nil
    with Suc.prems show ?thesis by (simp add: py_anext_def)
  next
    case (Cons x xs)
    with Suc.prems Suc.IH [of "c\<lparr>items := xs\<rparr>"] show ?thesis by (simp add: py_anext_def)
  qed
qed

lemma s_skip_discard_obs:
  "has_next c \<Longrightarrow> s_skip_discard n c = (map Pull (take n (items c)), Inr (c\<lparr>items := drop n (items c)\<rparr>))"
proof (induction n arbitrary: c)
  case 0
  then show ?case by simp
next
  case (Suc n)
  show ?case
  proof (cases "items c")
    case Nil
    with Suc.prems show ?thesis by (simp add: py_next_def)
  next
    case (Cons x xs)
    with Suc.prems Suc.IH [of "c\<lparr>items := xs\<rparr>"] show ?thesis by (simp add: py_next_def)
  qed
qed

lemma a_skip_discard_obs:
  "has_anext c \<Longrightarrow> a_skip_discard n c = (map Pull (take n (items c)), Inr (c\<lparr>items := drop n (items c)\<rparr>))"
proof (induction n arbitrary: c)
  case 0
  then show ?case by simp
next
  case (Suc n)
  show ?case
  proof (cases "items c")
    case Nil
    with Suc.prems show ?thesis by (simp add: py_anext_def)
  next
    case (Cons x xs)
    with Suc.prems Suc.IH [of "c\<lparr>items := xs\<rparr>"] show ?thesis by (simp add: py_anext_def)
  qed
qed

lemma take_op_obs:
  assumes "coerce s = Inr c"
  shows "yields (take_op s n) = take (nat n) (items s) \<and> raised (take_op s n) = None
    \<and> pulls (take_op s n) = take (nat n) (items s)"
proof (cases "is_async_stream c")
  case True
  with coerce_async [OF assms] a_take_loop_obs [of c "nat n"] show ?thesis
    by (simp add: take_op_def factory_def assms a_take_def coerce_items [OF assms])
next
  case False
  with coerce_sync [OF assms] s_take_loop_obs [of c "nat n"] show ?thesis
    by (simp add: take_op_def factory_def assms s_take_def coerce_items [OF assms])
qed

lemma skip_obs:
  assumes "coerce s = Inr c"
  shows "yields (skip s n) = drop (nat n) (items s) \<and> raised (skip s n) = None
    \<and> pulls (skip s n) = items s"
proof (cases "is_async_stream c")
  case True
  with coerce_async [OF assms] a_skip_discard_obs [of c "nat n"] show ?thesis
    by (simp add: skip_def factory_def assms a_skip_def coerce_items [OF assms] async_for_iter_def
        items_dunder_aiter yields_append raised_append pulls_append forward_loop_obs
        yields_map_Pull raised_map_Pull pulls_map_Pull)
next
  case False
  with coerce_sync [OF assms] s_skip_discard_obs [of c "nat n"] show ?thesis
    by (simp add: skip_def factory_def assms s_skip_def coerce_items [OF assms] for_iter_def
        items_dunder_iter yields_append raised_append pulls_append forward_loop_obs
        yields_map_Pull raised_map_Pull pulls_map_Pull)
qed

text \<open>
  C9. For a stream \<open>s\<close> and \<open>n \<ge> 0\<close>, the elements yielded by \<open>take(s, n)\<close> followed by
  those yielded by \<open>skip(s, n)\<close>, each run on \<open>s\<close> as it was, are the elements of \<open>s\<close>:
  take yields the first \<open>n\<close> elements (fewer when the source is shorter, never more than
  \<open>n\<close>), skip drops \<open>min(n, length)\<close> leading elements and forwards the rest, and neither
  raises.
\<close>

theorem take_then_skip:
  assumes "is_stream s" and "0 \<le> n"
  shows "yields (take_op s n) @ yields (skip s n) = items s \<and>
         yields (take_op s n) = take (nat n) (items s) \<and>
         length (yields (take_op s n)) \<le> nat n \<and>
         yields (skip s n) = drop (min (nat n) (length (items s))) (items s) \<and>
         raised (take_op s n) = None \<and> raised (skip s n) = None"
proof -
  from assms(1) obtain c where c: "coerce s = Inr c"
    using coerce_stream by blast
  show ?thesis
    using take_op_obs [OF c, of n] skip_obs [OF c, of n] by (simp add: min_def)
qed

theorem take_then_skip_witness:
  "is_stream (py_list [1, 2, 3 :: int]) \<and> (0 :: int) \<le> 2 \<and>
   yields (take_op (py_list [1, 2, 3 :: int]) 2) = [1, 2] \<and>
   yields (skip (py_list [1, 2, 3 :: int]) 2) = [3]"
proof -
  have s: "is_stream (py_list [1, 2, 3 :: int])"
    by (simp add: is_stream_def py_list_def is_Iterable_def)
  have n: "(0 :: int) \<le> 2" by simp
  have i: "items (py_list [1, 2, 3 :: int]) = [1, 2, 3]" by (simp add: py_list_def)
  have t: "take (nat 2) [1, 2, 3 :: int] = [1, 2]" by (simp add: numeral_2_eq_2)
  have d: "drop (min (nat 2) (length [1, 2, 3 :: int])) [1, 2, 3 :: int] = [3]" by (simp add: numeral_2_eq_2)
  show ?thesis
    using s n take_then_skip [OF s n] unfolding i t d by simp
qed

section \<open>Size, step and count arguments\<close>

lemma pool_loop_nonpositive:
  "n \<le> 0 \<Longrightarrow> pool_loop n p xs = map Pull xs @ (if p @ xs = [] then [] else [Yield (p @ xs)])"
  by (induction xs arbitrary: p) auto

lemma a_step_by_loop_negative: "n < 0 \<Longrightarrow> raised (a_step_by_loop n c xs) = None"
  by (induction xs arbitrary: c) (auto simp: raised_append)

text \<open>\<^verbatim>\<open>a_step_by\<close> has no check of its own: a zero step raises \<^verbatim>\<open>ZeroDivisionError\<close>
  once the first element has been read, and a negative step raises nothing.\<close>

lemma a_step_by_nonpositive:
  assumes "is_stream s" and "is_async_stream s"
  shows "step_by s 0 =
           Return # (case items s of [] \<Rightarrow> [] | x # xs \<Rightarrow> [Pull x, Raise ZeroDivisionError])"
    and "n < 0 \<Longrightarrow> raised (step_by s n) = None"
proof -
  from assms(1) obtain c where c: "coerce s = Inr c"
    using coerce_stream by blast
  note i = coerce_items [OF c]
  from assms(2) coerce_is_async [OF c] coerce_async [OF c]
  have h: "is_async_stream c" "has_anext c" "has_aiter c" by simp_all
  show "step_by s 0 =
      Return # (case items s of [] \<Rightarrow> [] | x # xs \<Rightarrow> [Pull x, Raise ZeroDivisionError])"
    using h
    by (simp add: step_by_def factory_def c a_step_by_def async_for_iter_def items_dunder_aiter i
        split: list.splits)
  show "raised (step_by s n) = None" if "n < 0"
    using h that
    by (simp add: step_by_def factory_def c a_step_by_def async_for_iter_def items_dunder_aiter i
        a_step_by_loop_negative)
qed

text \<open>
  C2, as the code has it. No operator checks its size, step or count. For a stream \<open>s\<close>
  and an argument \<open>n \<le> 0\<close>: \<open>pool\<close> raises nothing, reads the whole source and yields it
  as one group (nothing for an empty source); \<open>skip\<close> raises nothing and forwards every
  element; \<open>take\<close> raises nothing, reads nothing and yields nothing. \<open>step_by\<close> over a
  synchronous source raises \<^verbatim>\<open>ValueError\<close> at the call, before anything is read (the
  check is \<^verbatim>\<open>islice\<close>'s).
\<close>

theorem nonpositive_arguments:
  assumes "is_stream s" and "n \<le> 0"
  shows "pool s n = Return # map Pull (items s) @ (if items s = [] then [] else [Yield (items s)]) \<and>
         skip s n = Return # forward_loop (items s) \<and>
         take_op s n = [Return] \<and>
         (\<not> is_async_stream s \<longrightarrow> step_by s n = [Raise ValueError])"
proof -
  from assms(1) obtain c where c: "coerce s = Inr c"
    using coerce_stream by blast
  note i = coerce_items [OF c]
  note k = coerce_is_async [OF c]
  have z: "nat n = 0" using assms(2) by simp
  show ?thesis
  proof (cases "is_async_stream s")
    case True
    with k coerce_async [OF c] have h: "is_async_stream c" "has_anext c" "has_aiter c" by simp_all
    have 1: "pool s n = Return # map Pull (items s) @ (if items s = [] then [] else [Yield (items s)])"
      using h assms(2)
      by (simp add: pool_def factory_def c a_pool_def async_for_iter_def items_dunder_aiter i
          pool_loop_nonpositive)
    have 2: "skip s n = Return # forward_loop (items s)"
      using h by (simp add: skip_def factory_def c a_skip_def z async_for_iter_def items_dunder_aiter i)
    have 3: "take_op s n = [Return]"
      using h by (simp add: take_op_def factory_def c a_take_def z)
    from True 1 2 3 show ?thesis by blast
  next
    case False
    with k coerce_sync [OF c] have h: "\<not> is_async_stream c" "has_next c" "has_iter c" by simp_all
    have 1: "pool s n = Return # map Pull (items s) @ (if items s = [] then [] else [Yield (items s)])"
      using h assms(2)
      by (simp add: pool_def factory_def c s_pool_def for_iter_def items_dunder_iter i
          pool_loop_nonpositive)
    have 2: "skip s n = Return # forward_loop (items s)"
      using h by (simp add: skip_def factory_def c s_skip_def z for_iter_def items_dunder_iter i)
    have 3: "take_op s n = [Return]"
      using h by (simp add: take_op_def factory_def c s_take_def z)
    have 4: "step_by s n = [Raise ValueError]"
      using h assms(2) by (simp add: step_by_def factory_def c s_step_by_def)
    from False 1 2 3 4 show ?thesis by blast
  qed
qed

text \<open>C2 as stated fails: \<open>pool\<close> with size \<open>0\<close> over \<open>[1, 2, 3]\<close> raises nothing, reads all
  three elements and yields them as one group.\<close>

theorem pool_size_zero_counterexample:
  "pool (py_list [1, 2, 3 :: int]) 0 = [Return, Pull 1, Pull 2, Pull 3, Yield [1, 2, 3]]"
  by (simp add: pool_def factory_def coerce_def py_list_def isinstance_defs dunder_iter_def
      sync_iterator_def s_pool_def for_iter_def)

theorem nonpositive_arguments_witness:
  "is_stream (py_list [1, 2, 3 :: int]) \<and> (0 :: int) \<le> 0 \<and> \<not> is_async_stream (py_list [1, 2, 3 :: int]) \<and>
   is_stream (async_iterable [1, 2, 3 :: int]) \<and> (-2 :: int) \<le> 0 \<and>
   pool (py_list [1, 2, 3 :: int]) 0 = [Return, Pull 1, Pull 2, Pull 3, Yield [1, 2, 3]] \<and>
   skip (py_list [1, 2, 3 :: int]) 0 = [Return, Pull 1, Yield 1, Pull 2, Yield 2, Pull 3, Yield 3] \<and>
   take_op (py_list [1, 2, 3 :: int]) 0 = [Return] \<and>
   step_by (py_list [1, 2, 3 :: int]) 0 = [Raise ValueError] \<and>
   pool (async_iterable [1, 2, 3 :: int]) (-2) = [Return, Pull 1, Pull 2, Pull 3, Yield [1, 2, 3]] \<and>
   skip (async_iterable [1, 2, 3 :: int]) (-2) =
     [Return, Pull 1, Yield 1, Pull 2, Yield 2, Pull 3, Yield 3] \<and>
   take_op (async_iterable [1, 2, 3 :: int]) (-2) = [Return]"
  using nonpositive_arguments [OF is_stream_examples(1), of 0 "[1, 2, 3 :: int]"]
    nonpositive_arguments [OF is_stream_examples(3), of "-2" "[1, 2, 3 :: int]"]
  by (simp add: is_stream_examples(1) is_stream_examples(3) items_simps is_async_simps)

section \<open>Sort\<close>


















section \<open>Zip\<close>

lemma cursor_advance: "cursor c \<Longrightarrow> cursor (advance n c)"
  by (auto simp: cursor_def advance_def isinstance_defs split: if_splits)

lemma items_advance: "items (advance n c) = drop n (items c)"
  by (simp add: advance_def)

lemma advance_advance: "advance n (advance k c) = advance (k + n) c"
  by (simp add: advance_def add.commute)

lemma advance_0: "advance 0 c = c"
  by (simp add: advance_def)

lemma coerce_cursor: "coerce s = Inr c \<Longrightarrow> cursor c"
  using coerce_async [of s c] coerce_sync [of s c] by (auto simp: cursor_def)

lemma coerce_all_streams:
  "\<forall>s \<in> set srcs. is_stream s \<Longrightarrow>
     \<exists>cs. coerce_all srcs = Inr cs \<and> map items cs = map items srcs \<and> (\<forall>c \<in> set cs. cursor c)"
proof (induction srcs)
  case Nil
  then show ?case by simp
next
  case (Cons s srcs)
  then obtain cs where cs: "coerce_all srcs = Inr cs" "map items cs = map items srcs"
      "\<forall>c \<in> set cs. cursor c"
    by auto
  from Cons.prems obtain c where c: "coerce s = Inr c"
    using coerce_stream [of s] by auto
  with cs coerce_items [OF c] coerce_cursor [OF c] show ?case by simp
qed

lemma pull_cursor:
  "cursor c \<Longrightarrow>
     (if is_async_stream c then py_anext c else py_next c) =
     (case items c of
        [] \<Rightarrow> Inl (if is_async_stream c then StopAsyncIteration else StopIteration)
      | x # xs \<Rightarrow> Inr (x, advance 1 c))"
  by (auto simp: cursor_def py_next_def py_anext_def advance_def split: list.splits)

lemma zip_round_full:
  "\<forall>c \<in> set cs. cursor c \<and> items c \<noteq> [] \<Longrightarrow>
     zip_round cs = (Inr (map (\<lambda>c. items c ! 0) cs), map (advance 1) cs)"
proof (induction cs)
  case Nil
  then show ?case by simp
next
  case (Cons c cs)
  then obtain x xs where x: "items c = x # xs" by (cases "items c") auto
  from Cons have "cursor c" by simp
  from pull_cursor [OF this] x Cons show ?case
    by (simp del: zip_round.simps add: zip_round.simps(2) [of c cs])
qed

lemma zip_round_short:
  "\<forall>c \<in> set cs. cursor c \<Longrightarrow> \<exists>c \<in> set cs. items c = [] \<Longrightarrow>
     \<exists>e. (e = StopIteration \<or> e = StopAsyncIteration) \<and>
       zip_round cs =
         (Inl e, map (advance 1) (takeWhile (\<lambda>c. items c \<noteq> []) cs) @ dropWhile (\<lambda>c. items c \<noteq> []) cs)"
proof (induction cs)
  case Nil
  then show ?case by simp
next
  case (Cons c cs)
  from Cons.prems have cur: "cursor c" by simp
  show ?case
  proof (cases "items c")
    case Nil
    with pull_cursor [OF cur] show ?thesis by auto
  next
    case (Cons x xs)
    with Cons.prems have "\<exists>c \<in> set cs. items c = []" by auto
    with Cons.IH Cons.prems obtain e where
      e: "e = StopIteration \<or> e = StopAsyncIteration"
      "zip_round cs =
         (Inl e, map (advance 1) (takeWhile (\<lambda>c. items c \<noteq> []) cs) @ dropWhile (\<lambda>c. items c \<noteq> []) cs)"
      by auto
    with pull_cursor [OF cur] Cons show ?thesis
      by (simp del: zip_round.simps add: zip_round.simps(2) [of c cs])
  qed
qed

lemma shortest_le: "c \<in> set cs \<Longrightarrow> shortest cs \<le> length (items c)"
  by (simp add: shortest_def)

lemma shortest_attained: "cs \<noteq> [] \<Longrightarrow> \<exists>c \<in> set cs. length (items c) = shortest cs"
proof -
  assume "cs \<noteq> []"
  then have "Min (set (map (\<lambda>s. length (items s)) cs)) \<in> set (map (\<lambda>s. length (items s)) cs)"
    by (intro Min_in) auto
  then show ?thesis by (auto simp: shortest_def)
qed

lemma shortest_advance:
  assumes "cs \<noteq> []"
  shows "shortest (map (advance 1) cs) = shortest cs - 1"
proof -
  let ?S = "set (map (\<lambda>s. length (items s)) cs)"
  have "mono (\<lambda>n::nat. n - 1)" by (rule monoI) simp
  then have "Min ?S - 1 = Min ((\<lambda>n. n - 1) ` ?S)"
    using assms by (intro mono_Min_commute) auto
  moreover have "(\<lambda>n. n - 1) ` ?S = set (map (\<lambda>s. length (items s)) (map (advance 1) cs))"
    by (auto simp: items_advance image_iff)
  ultimately show ?thesis by (simp add: shortest_def)
qed

lemma zip_loop_run:
  assumes "cs \<noteq> []" and "\<forall>c \<in> set cs. cursor c"
  shows "zip_loop cs =
           Some (map Yield (map (\<lambda>k. map (\<lambda>c. items c ! k) cs) [0..<shortest cs]), zip_final cs)"
  using assms
proof (induction "shortest cs" arbitrary: cs)
  case 0
  from shortest_attained [OF "0.prems"(1)] "0.hyps" have "\<exists>c \<in> set cs. items c = []" by auto
  from zip_round_short [OF "0.prems"(2) this] obtain e where
    e: "e = StopIteration \<or> e = StopAsyncIteration"
    "zip_round cs =
       (Inl e, map (advance 1) (takeWhile (\<lambda>c. items c \<noteq> []) cs) @ dropWhile (\<lambda>c. items c \<noteq> []) cs)"
    by blast
  have "map (advance 0) cs = cs" by (simp add: advance_0 map_idI)
  with e "0.hyps" [symmetric] show ?case
    by (subst zip_loop.simps) (auto simp: zip_final_def)
next
  case (Suc n)
  let ?cs1 = "map (advance 1) cs"
  have ne: "\<forall>c \<in> set cs. cursor c \<and> items c \<noteq> []"
  proof
    fix c assume c: "c \<in> set cs"
    with shortest_le [OF c] Suc.hyps(2) Suc.prems(2) show "cursor c \<and> items c \<noteq> []" by auto
  qed
  note r = zip_round_full [OF ne]
  have n: "n = shortest ?cs1"
    using shortest_advance [OF Suc.prems(1)] Suc.hyps(2) by simp
  have "zip_loop ?cs1 =
      Some (map Yield (map (\<lambda>k. map (\<lambda>c. items c ! k) ?cs1) [0..<shortest ?cs1]), zip_final ?cs1)"
    using Suc.hyps(1) [OF n] Suc.prems by (simp add: cursor_advance)
  moreover have "zip_final ?cs1 = zip_final cs"
    using n Suc.hyps(2) by (simp add: zip_final_def advance_advance comp_def)
  moreover have "map (\<lambda>c. items c ! k) ?cs1 = map (\<lambda>c. items c ! Suc k) cs" for k
    using ne by (auto simp: items_advance Suc_le_eq)
  ultimately have "zip_loop ?cs1 =
      Some (map Yield (map (\<lambda>k. map (\<lambda>c. items c ! Suc k) cs) [0..<n]), zip_final cs)"
    using n by simp
  moreover have "map (\<lambda>k. map (\<lambda>c. items c ! k) cs) [0..<Suc n] =
      map (\<lambda>c. items c ! 0) cs # map (\<lambda>k. map (\<lambda>c. items c ! Suc k) cs) [0..<n]"
    by (simp only: map_upt_Suc)
  ultimately show ?case
    using r Suc.hyps(2) [symmetric]
    by (subst zip_loop.simps) (simp del: upt_Suc)
qed

lemma shortest_items: "shortest cs = Min (set (map length (map items cs)))"
  by (simp add: shortest_def comp_def)

lemma first_exhausted_items:
  "first_exhausted cs = length (takeWhile (\<lambda>xs. shortest cs < length xs) (map items cs))"
  by (simp add: first_exhausted_def takeWhile_map comp_def)

lemma shortest_cong: "map items cs = map items srcs \<Longrightarrow> shortest cs = shortest srcs"
  by (simp add: shortest_items)

lemma first_exhausted_cong:
  "map items cs = map items srcs \<Longrightarrow> first_exhausted cs = first_exhausted srcs"
  using shortest_cong [of cs srcs] by (simp add: first_exhausted_items)

lemma tuples_cong:
  "map items cs = map items srcs \<Longrightarrow> map (\<lambda>c. items c ! k) cs = map (\<lambda>s. items s ! k) srcs"
proof -
  assume "map items cs = map items srcs"
  then have "map (\<lambda>xs. xs ! k) (map items cs) = map (\<lambda>xs. xs ! k) (map items srcs)" by simp
  then show ?thesis by (simp add: comp_def)
qed

lemma zip_final_split:
  "zip_final cs =
     map (advance (Suc (shortest cs))) (take (first_exhausted cs) cs) @
     map (advance (shortest cs)) (drop (first_exhausted cs) cs)"
proof -
  let ?P = "\<lambda>c. items c \<noteq> []"
  let ?cs' = "map (advance (shortest cs)) cs"
  have j: "length (takeWhile ?P ?cs') = first_exhausted cs"
    by (simp add: first_exhausted_def takeWhile_map comp_def items_advance not_le)
  have "takeWhile ?P ?cs' = take (first_exhausted cs) ?cs'"
    using takeWhile_eq_take [of ?P ?cs'] j by simp
  moreover have "dropWhile ?P ?cs' = drop (first_exhausted cs) ?cs'"
    using dropWhile_eq_drop [of ?P ?cs'] j by simp
  ultimately show ?thesis
    by (simp add: zip_final_def take_map drop_map advance_advance comp_def)
qed

lemma first_exhausted_le: "first_exhausted cs \<le> length cs"
  by (simp add: first_exhausted_def length_takeWhile_le)

lemma zip_final_length: "length (zip_final cs) = length cs"
  using first_exhausted_le [of cs] by (simp add: zip_final_split)

lemma zip_final_nth:
  assumes "i < length cs"
  shows "zip_final cs ! i =
           advance (if i < first_exhausted cs then Suc (shortest cs) else shortest cs) (cs ! i)"
  using assms first_exhausted_le [of cs] by (simp add: zip_final_split nth_append)

lemma before_first_exhausted:
  assumes "i < first_exhausted cs"
  shows "shortest cs < length (items (cs ! i))"
proof -
  let ?P = "\<lambda>s. shortest cs < length (items s)"
  from assms have i: "i < length (takeWhile ?P cs)" by (simp add: first_exhausted_def)
  then have "takeWhile ?P cs ! i \<in> set (takeWhile ?P cs)" by simp
  then have "?P (takeWhile ?P cs ! i)" by (rule set_takeWhileD [THEN conjunct2])
  with i show ?thesis by (simp add: takeWhile_nth)
qed

lemma zip_op_run:
  assumes "srcs \<noteq> []" and "\<forall>s \<in> set srcs. is_stream s"
  shows "\<exists>cs. map items cs = map items srcs \<and>
           zip_op srcs =
             Some (Return # map Yield (map (\<lambda>k. map (\<lambda>s. items s ! k) srcs) [0..<shortest srcs]),
                   zip_final cs)"
proof -
  from coerce_all_streams [OF assms(2)] obtain cs where
    cs: "coerce_all srcs = Inr cs" "map items cs = map items srcs" "\<forall>c \<in> set cs. cursor c"
    by blast
  from cs(2) assms(1) have ne: "cs \<noteq> []" by auto
  have "zip_op srcs =
      Some (Return # map Yield (map (\<lambda>k. map (\<lambda>c. items c ! k) cs) [0..<shortest cs]), zip_final cs)"
    by (simp add: zip_op_def cs(1) zip_loop_run [OF ne cs(3)])
  with cs(2) show ?thesis
    by (auto simp: tuples_cong [OF cs(2)] shortest_cong [OF cs(2)])
qed

lemma zip_loop_needs_source: "zip_loop cs = Some y \<Longrightarrow> cs \<noteq> []"
proof (rule zip_loop.raw_induct [where P = "\<lambda>cs y. cs \<noteq> []"])
  fix loop :: "'a pyobj list \<Rightarrow> (('a, 'a list) event list \<times> 'a pyobj list) option"
    and streams y
  assume IH: "\<And>streams y. loop streams = Some y \<Longrightarrow> streams \<noteq> []"
    and step: "(case zip_round streams of
        (Inr grp, streams') \<Rightarrow>
          Option.bind (loop streams') (\<lambda>(es, final). Some (Yield grp # es, final))
      | (Inl e, streams') \<Rightarrow>
          if e = StopIteration \<or> e = StopAsyncIteration then Some ([], streams')
          else Some ([Raise e], streams')) = Some y"
  show "streams \<noteq> []"
  proof
    assume "streams = []"
    with step obtain z where "loop [] = Some z"
      by (auto split: Option.bind_splits)
    with IH show False by blast
  qed
qed

lemma zip_loop_no_sources: "zip_loop ([] :: 'a pyobj list) = None"
  using zip_loop_needs_source [of "[]"] by (cases "zip_loop ([] :: 'a pyobj list)") auto

text \<open>
  C7. For one or more streams, each an object of its own, \<open>zip\<close> finishes after yielding
  exactly as many tuples as the shortest source has elements, whatever the others still
  hold; the \<open>k\<close>-th tuple holds the \<open>k\<close>-th element of every source, in argument order,
  and nothing is raised. With sources of 3 and 5 elements it yields exactly 3 tuples.
  (With no source at all the loop never ends: lemma \<open>zip_loop_no_sources\<close>.)
\<close>

theorem zip_shortest_wins:
  assumes "srcs \<noteq> []" and "\<forall>s \<in> set srcs. is_stream s"
  shows "\<exists>run final.
           zip_op srcs = Some (run, final) \<and>
           run = Return # map Yield (map (\<lambda>k. map (\<lambda>s. items s ! k) srcs)
                                       [0..<Min (set (map (\<lambda>s. length (items s)) srcs))]) \<and>
           length (yields run) = Min (set (map (\<lambda>s. length (items s)) srcs)) \<and>
           raised run = None"
proof -
  from zip_op_run [OF assms] obtain cs where
    "zip_op srcs =
       Some (Return # map Yield (map (\<lambda>k. map (\<lambda>s. items s ! k) srcs) [0..<shortest srcs]),
             zip_final cs)"
    by blast
  then show ?thesis
    by (simp add: shortest_def raised_map_Yield_fn yields_map_Yield comp_def)
qed

theorem zip_shortest_wins_witness:
  "[py_list [1, 2, 3 :: int], async_iterator [10, 20, 30, 40, 50]] \<noteq> [] \<and>
   is_stream (py_list [1, 2, 3 :: int]) \<and> is_stream (async_iterator [10, 20, 30, 40, 50 :: int]) \<and>
   (\<exists>run final.
      zip_op [py_list [1, 2, 3 :: int], async_iterator [10, 20, 30, 40, 50]] = Some (run, final) \<and>
      run = [Return, Yield [1, 10], Yield [2, 20], Yield [3, 30]] \<and>
      length (yields run) = 3 \<and> raised run = None)"
proof -
  let ?srcs = "[py_list [1, 2, 3 :: int], async_iterator [10, 20, 30, 40, 50]]"
  have ne: "?srcs \<noteq> []" by simp
  have st: "\<forall>s \<in> set ?srcs. is_stream s" by (simp add: is_stream_examples)
  have m: "Min (set (map (\<lambda>s. length (items s)) ?srcs)) = 3" by (simp add: items_simps)
  have u: "[0..<3] = [0, 1, 2]" by (simp add: upt_rec)
  from zip_shortest_wins [OF ne st] show ?thesis
    unfolding m u using st by (simp add: items_simps)
qed

text \<open>
  C10. Let \<open>m\<close> be the length of the shortest source and \<open>j\<close> the position of the first
  source of that length. \<open>zip\<close> yields \<open>m\<close> tuples, built from the first \<open>m\<close> elements of
  each source, raises nothing, and leaves its cursors so: every source before position
  \<open>j\<close> has more than \<open>m\<close> elements and has lost \<open>m + 1\<close> of them, one more than went into
  the tuples; every source from position \<open>j\<close> on has lost exactly \<open>m\<close>. The element read in
  the unfinished round is in no tuple and is not put back.
\<close>

theorem zip_discards_partial_round:
  assumes "srcs \<noteq> []" and "\<forall>s \<in> set srcs. is_stream s"
  shows "\<exists>run final.
           zip_op srcs = Some (run, final) \<and>
           yields run = map (\<lambda>k. map (\<lambda>s. items s ! k) srcs) [0..<shortest srcs] \<and>
           raised run = None \<and>
           length final = length srcs \<and>
           (\<forall>i < length srcs.
              items (final ! i) =
                drop (if i < first_exhausted srcs then Suc (shortest srcs) else shortest srcs)
                  (items (srcs ! i)) \<and>
              (i < first_exhausted srcs \<longrightarrow> shortest srcs < length (items (srcs ! i))))"
proof -
  from zip_op_run [OF assms] obtain cs where
    cs: "map items cs = map items srcs"
    "zip_op srcs =
       Some (Return # map Yield (map (\<lambda>k. map (\<lambda>s. items s ! k) srcs) [0..<shortest srcs]),
             zip_final cs)"
    by blast
  from cs(1) have len: "length cs = length srcs" by (rule map_eq_imp_length_eq)
  have it: "items (cs ! i) = items (srcs ! i)" if "i < length srcs" for i
    using that len nth_map [of i cs items] nth_map [of i srcs items] by (simp add: cs(1))
  have "items (zip_final cs ! i) =
      drop (if i < first_exhausted srcs then Suc (shortest srcs) else shortest srcs) (items (srcs ! i))
      \<and> (i < first_exhausted srcs \<longrightarrow> shortest srcs < length (items (srcs ! i)))"
    if "i < length srcs" for i
    using that len zip_final_nth [of i cs] before_first_exhausted [of i cs] it [OF that]
    by (simp add: items_advance shortest_cong [OF cs(1)] first_exhausted_cong [OF cs(1)])
  with cs(2) len show ?thesis
    by (simp add: zip_final_length yields_map_Yield raised_map_Yield_fn comp_def)
qed

theorem zip_discards_partial_round_witness:
  "[sync_iterator [1, 2, 3, 4, 5 :: int], async_iterator [10, 20, 30], py_list [7, 8, 9, 10]] \<noteq> [] \<and>
   is_stream (sync_iterator [1, 2, 3, 4, 5 :: int]) \<and> is_stream (async_iterator [10, 20, 30 :: int]) \<and>
   is_stream (py_list [7, 8, 9, 10 :: int]) \<and>
   (\<exists>run final.
      zip_op [sync_iterator [1, 2, 3, 4, 5 :: int], async_iterator [10, 20, 30], py_list [7, 8, 9, 10]] =
        Some (run, final) \<and>
      yields run = [[1, 10, 7], [2, 20, 8], [3, 30, 9]] \<and>
      raised run = None \<and> length final = 3 \<and>
      items (final ! 0) = [5] \<and> items (final ! 1) = [] \<and> items (final ! 2) = [10])"
proof -
  let ?srcs = "[sync_iterator [1, 2, 3, 4, 5 :: int], async_iterator [10, 20, 30], py_list [7, 8, 9, 10]]"
  have ne: "?srcs \<noteq> []" by simp
  have st: "\<forall>s \<in> set ?srcs. is_stream s" by (simp add: is_stream_examples)
  have m: "shortest ?srcs = 3" by (simp add: shortest_def items_simps)
  have j: "first_exhausted ?srcs = 1" by (simp add: first_exhausted_def m items_simps)
  have u: "[0..<3] = [0, 1, 2]" by (simp add: upt_rec)
  from zip_discards_partial_round [OF ne st] obtain run final where
    r: "zip_op ?srcs = Some (run, final)"
      "yields run = map (\<lambda>k. map (\<lambda>s. items s ! k) ?srcs) [0..<shortest ?srcs]"
      "raised run = None"
      "length final = length ?srcs"
      "\<forall>i < length ?srcs.
         items (final ! i) =
           drop (if i < first_exhausted ?srcs then Suc (shortest ?srcs) else shortest ?srcs)
             (items (?srcs ! i)) \<and>
         (i < first_exhausted ?srcs \<longrightarrow> shortest ?srcs < length (items (?srcs ! i)))"
    by blast
  from r(2) have y: "yields run = [[1, 10, 7], [2, 20, 8], [3, 30, 9]]"
    unfolding m u by (simp add: items_simps)
  from r(5) have "items (final ! 0) = [5]" "items (final ! 1) = []" "items (final ! 2) = [10]"
    unfolding m j by (simp_all add: items_simps)
  with ne st r(1,3,4) y show ?thesis by simp
qed

section \<open>Examples\<close>

text \<open>The operators on the inputs of the documented examples.\<close>

lemma pool_example:
  "yields (pool (py_list [1, 2, 3, 4, 5 :: int]) 2) = [[1, 2], [3, 4], [5]]"
  "yields (pool (async_iterator [1, 2, 3, 4, 5 :: int]) 2) = [[1, 2], [3, 4], [5]]"
  by (simp_all add: pool_def factory_def coerce_def s_pool_def a_pool_def concrete_defs)

lemma step_by_example:
  "yields (step_by (py_list [0, 1, 2, 3, 4, 5 :: int]) 2) = [0, 2, 4]"
  "yields (step_by (async_iterator [0, 1, 2, 3, 4, 5 :: int]) 2) = [0, 2, 4]"
  by (simp_all add: step_by_def factory_def coerce_def s_step_by_def a_step_by_def sys_maxsize_def
      concrete_defs)

end
